theory Spec2Isabelle
  imports Main "HOL-Library.Sublist"
begin

section \<open>The task allocation bot of BOT.py\<close>

text \<open>
  A shallow embedding of class \<open>TaskBot\<close> of \<open>src/BOT.py\<close>: the reaction recorder
  \<open>on_reaction_add\<close>, the notification \<open>dm_winner\<close>, the ledger writer
  \<open>write_to_sheet\<close>, the batch command \<open>create_task\<close> and the timed cycle
  \<open>task_allocation_loop_impl\<close>.

  The bot's attributes are the fields of the record \<open>bot\<close>. What the chat platform and the
  spreadsheet backend answer to each call is not decided by the program, so every awaited call
  takes its answer from an environment record: a value, or the exception it raises. Exceptions
  are values of \<open>exn\<close>; a function that can raise returns \<open>exn + 'a\<close> with \<open>Inl\<close> the
  exception, next to the state it reached before raising. The calls a method issues (messages,
  role changes, cell writes, sleeps, logger calls) are appended to the field \<open>trace\<close> in
  the order they are issued, whether they return or raise.
\<close>

subsection \<open>Exceptions\<close>

text \<open>
  \<open>discord.Forbidden\<close> and \<open>discord.NotFound\<close> are subclasses of
  \<open>discord.HTTPException\<close>; every constructor is a subclass of \<open>Exception\<close>.
\<close>

datatype exn = Forbidden | NotFound | HTTPException | TypeError | KeyError | OtherException

fun is_http :: "exn \<Rightarrow> bool" where
  "is_http Forbidden = True"
| "is_http NotFound = True"
| "is_http HTTPException = True"
| "is_http TypeError = False"
| "is_http KeyError = False"
| "is_http OtherException = False"

subsection \<open>Data\<close>

record role =
  role_id :: nat
  role_name :: string

record user =
  user_id :: nat
  user_bot :: bool

text \<open>A member object carries the role ids the platform reported when it was resolved.\<close>

record member =
  member_id :: nat
  member_name :: string
  member_roles :: "nat list"

datatype level = INFO | WARNING | ERROR | CRITICAL

datatype effect =
    Log level
  | LogChannel
  | Announcement int int
  | AddReaction nat
  | RolePing
  | DirectMessage nat int
  | PublicNotice nat int
  | Congratulation "(nat \<times> int) list"
  | UnclaimedNotice int int
  | OpenSheet string
  | UpdateCell int nat string
  | Sleep nat
  | AddRole nat nat
  | CreateRole string

text \<open>
  The attributes of \<open>TaskBot\<close> that the modelled methods read or write. The channels are kept
  as flags (set or \<open>None\<close>), \<open>gc\<close> as the flag that the spreadsheet client was initialised,
  \<open>task_allocation_loop\<close> as \<open>None\<close> or the flag that the loop is running. A stored
  timestamp is the aware UTC time \<open>datetime.now(timezone.utc)\<close>, as a number. The fields
  \<open>guild_roles\<close> and \<open>role_holders\<close> are the guild's: its roles, and which member holds
  which role as far as the bot's own grants changed it.
\<close>

record bot =
  total_tasks :: int
  current_task :: int
  winners_per_task :: int
  configured :: bool
  announce_channel :: bool
  logs_channel :: bool
  gc :: bool
  sheet_url :: string
  task_type :: string
  task_description :: string
  reaction_time :: nat
  is_paused :: bool
  stop_requested :: bool
  task_allocation_loop :: "bool option"
  reaction_timestamps :: "nat \<rightharpoonup> (nat \<rightharpoonup> nat)"
  role_removal_tasks :: "(nat \<times> nat) list"
  guild_roles :: "role list"
  role_holders :: "(nat \<times> nat) set"
  trace :: "effect list"

definition TASK_ROLE_NAME :: string where
  "TASK_ROLE_NAME = ''TaskHolder''"

definition DEFAULT_WINNERS_PER_TASK :: int where
  "DEFAULT_WINNERS_PER_TASK = 1"

definition emit :: "effect \<Rightarrow> bot \<Rightarrow> bot" where
  "emit e s = s\<lparr>trace := trace s @ [e]\<rparr>"

subsection \<open>Recording reactions\<close>

text \<open>
  \<open>on_reaction_add(reaction, user)\<close>: \<open>mid\<close> is \<open>reaction.message.id\<close> and \<open>now\<close> the
  clock reading. The emoji of the reaction is only logged.
\<close>

definition on_reaction_add :: "bot \<Rightarrow> nat \<Rightarrow> user \<Rightarrow> nat \<Rightarrow> bot" where
  "on_reaction_add s mid u now =
     (if user_bot u then s
      else case reaction_timestamps s mid of
        None \<Rightarrow> s
      | Some stamps \<Rightarrow>
          (case stamps (user_id u) of
             Some _ \<Rightarrow> s
           | None \<Rightarrow>
               emit (Log INFO)
                 (s\<lparr>reaction_timestamps :=
                      (reaction_timestamps s)(mid \<mapsto> stamps(user_id u \<mapsto> now))\<rparr>)))"

subsection \<open>The log channel\<close>

text \<open>
  \<open>send_log\<close> catches every exception of its own send, so it never raises; \<open>answer\<close> is
  what \<open>logs_channel.send\<close> does (\<open>None\<close>: it returns).
\<close>

definition send_log :: "bot \<Rightarrow> exn option \<Rightarrow> bot" where
  "send_log s answer =
     (if logs_channel s then
        (case answer of
           None \<Rightarrow> emit LogChannel s
         | Some e \<Rightarrow> emit (Log ERROR) (emit LogChannel s))
      else s)"

subsection \<open>Settlement of one winner: the answers of the outside\<close>

text \<open>
  One ledger attempt: \<open>open_by_key\<close> or \<open>get_worksheet\<close> raises, or the worksheet is
  there with its \<open>row_count\<close> and with what \<open>update_cell\<close> would do.
\<close>

datatype sheet_attempt = OpenRaises exn | Worksheet int "exn option"

record settle_env =
  create_role :: "exn + role"
  add_roles :: "exn option"
  dm_send :: "exn option"
  fallback_send :: "exn option"
  log_send :: "exn option"
  sheet_attempts :: "nat \<Rightarrow> sheet_attempt"

subsection \<open>Notification\<close>

text \<open>
  \<open>dm_winner(winner_member, task_number)\<close>. The handler is
  \<open>except (discord.Forbidden, discord.HTTPException)\<close>; the fallback send stands inside that
  handler, outside any \<open>try\<close>.
\<close>

definition dm_winner :: "bot \<Rightarrow> settle_env \<Rightarrow> member \<Rightarrow> int \<Rightarrow> bot \<times> (exn + bool)" where
  "dm_winner s env m task_number =
     (let s0 = emit (DirectMessage (member_id m) task_number) (emit (Log INFO) s) in
      case dm_send env of
        None \<Rightarrow> (send_log (emit (Log INFO) s0) (log_send env), Inr True)
      | Some e \<Rightarrow>
          if is_http e then
            (let s1 = emit (Log WARNING) s0 in
             if announce_channel s1 then
               (case fallback_send env of
                  None \<Rightarrow>
                    (send_log (emit (PublicNotice (member_id m) task_number) s1) (log_send env),
                     Inr False)
                | Some e' \<Rightarrow> (emit (PublicNotice (member_id m) task_number) s1, Inl e'))
             else (send_log s1 (log_send env), Inr False))
          else (s0, Inl e))"

subsection \<open>The ledger\<close>

text \<open>
  \<open>extract_sheet_id\<close>: \<open>re.search(r'/d/([A-Za-z0-9\-_]+)', url)\<close>, the leftmost place where
  \<open>/d/\<close> is followed by at least one character of the class, and the longest run there.
\<close>

definition id_char :: "char \<Rightarrow> bool" where
  "id_char c =
     (c \<in> set ''ABCDEFGHIJKLMNOPQRSTUVWXYZabcdefghijklmnopqrstuvwxyz0123456789-_'')"

definition sheet_id_here :: "string \<Rightarrow> string option" where
  "sheet_id_here url =
     (if take 3 url = ''/d/'' \<and> takeWhile id_char (drop 3 url) \<noteq> []
      then Some (takeWhile id_char (drop 3 url)) else None)"

fun extract_sheet_id :: "string \<Rightarrow> string option" where
  "extract_sheet_id [] = None"
| "extract_sheet_id (c # cs) =
     (case sheet_id_here (c # cs) of
        Some sheet_id \<Rightarrow> Some sheet_id
      | None \<Rightarrow> extract_sheet_id cs)"

text \<open>The handler of one failed attempt: \<open>attempt\<close> is the loop variable of \<open>range(3)\<close>.\<close>

definition attempt_failed :: "bot \<Rightarrow> nat \<Rightarrow> bot" where
  "attempt_failed s attempt =
     (let s1 = emit (Log ERROR) s in
      if attempt < 2 then emit (Sleep (2 ^ attempt)) s1 else emit (Log CRITICAL) s1)"

text \<open>
  The body of \<open>for attempt in range(3)\<close>, over the attempts still to run. Each \<open>return\<close> of
  the source ends the recursion; an exception goes to \<open>attempt_failed\<close> and on to the next
  attempt.
\<close>

fun write_attempts :: "bot \<Rightarrow> (nat \<Rightarrow> sheet_attempt) \<Rightarrow> int \<Rightarrow> string \<Rightarrow> nat list \<Rightarrow> bot" where
  "write_attempts s answers task_number winner_name [] = s"
| "write_attempts s answers task_number winner_name (attempt # rest) =
     (case extract_sheet_id (sheet_url s) of
        None \<Rightarrow> emit (Log ERROR) s
      | Some sheet_id \<Rightarrow>
          (let s1 = emit (OpenSheet sheet_id) s in
           case answers attempt of
             OpenRaises e \<Rightarrow>
               write_attempts (attempt_failed s1 attempt) answers task_number winner_name rest
           | Worksheet row_count update \<Rightarrow>
               if task_number + 1 > row_count then emit (Log ERROR) s1
               else
                 (let s2 = emit (UpdateCell (task_number + 1) 4 winner_name) s1 in
                  case update of
                    None \<Rightarrow> emit (Log INFO) s2
                  | Some e \<Rightarrow>
                      write_attempts (attempt_failed s2 attempt) answers task_number
                        winner_name rest)))"

definition write_to_sheet :: "bot \<Rightarrow> (nat \<Rightarrow> sheet_attempt) \<Rightarrow> int \<Rightarrow> string \<Rightarrow> bot" where
  "write_to_sheet s answers task_number winner_name =
     (let s0 = emit (Log INFO) s in
      if \<not> (gc s0 \<and> sheet_url s0 \<noteq> []) then emit (Log WARNING) s0
      else write_attempts s0 answers task_number winner_name [0, 1, 2])"

subsection \<open>Roles\<close>

text \<open>
  \<open>get_or_create_role\<close>: \<open>discord.utils.get(guild.roles, name=role_name)\<close> is the first role
  of that name; both handlers of the creation log and re-raise.
\<close>

definition get_or_create_role :: "bot \<Rightarrow> settle_env \<Rightarrow> string \<Rightarrow> bot \<times> (exn + role)" where
  "get_or_create_role s env name =
     (case find (\<lambda>r. role_name r = name) (guild_roles s) of
        Some r \<Rightarrow> (emit (Log INFO) s, Inr r)
      | None \<Rightarrow>
          (let s1 = emit (CreateRole name) (emit (Log WARNING) s) in
           case create_role env of
             Inr r \<Rightarrow> (emit (Log INFO) (s1\<lparr>guild_roles := guild_roles s1 @ [r]\<rparr>), Inr r)
           | Inl e \<Rightarrow> (emit (Log ERROR) s1, Inl e)))"

text \<open>
  The \<open>try\<close> body of one winner in the cycle: role, grant, the deferred removal task, the
  notification, the ledger write. \<open>Inr True\<close>: the winner is appended to
  \<open>winners_assigned\<close>; \<open>Inr False\<close>: the branch \<open>message.guild is None\<close>; \<open>Inl e\<close>:
  the body raised \<open>e\<close>. Nothing done before the raise is undone.
\<close>

definition settle_winner :: "bot \<Rightarrow> settle_env \<Rightarrow> bool \<Rightarrow> member \<Rightarrow> int \<Rightarrow> bot \<times> (exn + bool)" where
  "settle_winner s env guild winner_member current_task_num =
     (let s0 = emit (Log INFO) s in
      if guild then
        (case get_or_create_role s0 env TASK_ROLE_NAME of
           (s1, Inl e) \<Rightarrow> (s1, Inl e)
         | (s1, Inr r) \<Rightarrow>
             (let s2 = emit (AddRole (member_id winner_member) (role_id r)) s1 in
              case add_roles env of
                Some e \<Rightarrow> (s2, Inl e)
              | None \<Rightarrow>
                  (let s3 = s2\<lparr>role_holders :=
                               insert (member_id winner_member, role_id r) (role_holders s2),
                             role_removal_tasks :=
                               role_removal_tasks s2 @ [(member_id winner_member, role_id r)]\<rparr>
                   in case dm_winner s3 env winner_member current_task_num of
                        (s4, Inl e) \<Rightarrow> (s4, Inl e)
                      | (s4, Inr _) \<Rightarrow>
                          (write_to_sheet s4 (sheet_attempts env) current_task_num
                             (member_name winner_member),
                           Inr True))))
      else (emit (Log ERROR) s0, Inr False))"

subsection \<open>The cycle: the answers of the outside\<close>

text \<open>
  What a fetched message shows: its reactions, each with an emoji and the users
  \<open>reaction.users()\<close> yields (or the exception that iterator raises).
\<close>

record reaction =
  emoji :: string
  users :: "exn + user list"

text \<open>
  What arrives while the cycle sleeps through the reaction window: reactions (message id, user,
  clock reading) and the \<open>/stop_tasks\<close> command.
\<close>

datatype event = ReactionAdd nat user nat | StopTasks

record round_env =
  announce_send :: "exn + nat"
  add_reaction :: "exn option"
  role_to_ping :: bool
  ping_send :: "exn option"
  round_log_send :: "exn option"
  window_events :: "event list"
  fetch_message :: "exn + reaction list"
  message_guild :: bool
  get_member :: "nat \<Rightarrow> member option"
  fetch_member :: "nat \<Rightarrow> exn + member"
  winner_env :: "nat \<Rightarrow> settle_env"
  result_send :: "exn option"

subsection \<open>Administrative commands\<close>

text \<open>\<open>/stop_tasks\<close>, after the administrator check.\<close>

definition stop_tasks :: "bot \<Rightarrow> exn option \<Rightarrow> bot" where
  "stop_tasks s answer =
     (let s1 = (emit (Log INFO) s)\<lparr>stop_requested := True\<rparr> in
      case task_allocation_loop s1 of
        Some True \<Rightarrow>
          send_log (emit (Log INFO) (s1\<lparr>task_allocation_loop := Some False\<rparr>)) answer
      | Some False \<Rightarrow> emit (Log WARNING) s1
      | None \<Rightarrow> emit (Log WARNING) s1)"

text \<open>
  \<open>restart_task_loop\<close>: a running loop is cancelled, the loop object is made anew, and it is
  started when the bot is configured and has its announce channel.
\<close>

definition restart_task_loop :: "bot \<Rightarrow> bot" where
  "restart_task_loop s =
     (let s0 = emit (Log INFO) s;
          s1 = (case task_allocation_loop s0 of
                  Some True \<Rightarrow> emit (Log INFO) s0
                | Some False \<Rightarrow> s0
                | None \<Rightarrow> s0) in
      if configured s1 \<and> announce_channel s1
      then emit (Log INFO) (s1\<lparr>task_allocation_loop := Some True\<rparr>)
      else s1\<lparr>task_allocation_loop := Some False\<rparr>)"

text \<open>
  \<open>/create_task tasks task_type winners_per_task description\<close>, after the administrator
  check.
\<close>

definition create_task ::
  "bot \<Rightarrow> exn option \<Rightarrow> int \<Rightarrow> string \<Rightarrow> int option \<Rightarrow> string option \<Rightarrow> bot" where
  "create_task s answer tasks ttype winners description =
     (let s0 = emit (Log INFO) s in
      if \<not> configured s0 then emit (Log WARNING) s0
      else
        restart_task_loop
          (send_log
             (s0\<lparr>total_tasks := tasks,
                 current_task := 1,
                 winners_per_task :=
                   (case winners of Some w \<Rightarrow> w | None \<Rightarrow> DEFAULT_WINNERS_PER_TASK),
                 task_type := ttype,
                 is_paused := False,
                 stop_requested := False,
                 task_description := (case description of Some d \<Rightarrow> d | None \<Rightarrow> [])\<rparr>)
             answer))"

definition apply_event :: "exn option \<Rightarrow> bot \<Rightarrow> event \<Rightarrow> bot" where
  "apply_event answer s ev =
     (case ev of
        ReactionAdd mid u now \<Rightarrow> on_reaction_add s mid u now
      | StopTasks \<Rightarrow> stop_tasks s answer)"

subsection \<open>Resolving the eligible reactors\<close>

text \<open>
  The resolution reads the state and the answers of the outside and builds local lists only;
  its logger lines are left out. \<open>get_member_safely\<close> returns \<open>None\<close> on
  \<open>discord.NotFound\<close> and on \<open>discord.HTTPException\<close>; anything else the fetch raises
  goes on to the caller.
\<close>

definition get_member_safely :: "round_env \<Rightarrow> nat \<Rightarrow> exn + member option" where
  "get_member_safely env uid =
     (if \<not> message_guild env then Inr None
      else case get_member env uid of
        Some m \<Rightarrow> Inr (Some m)
      | None \<Rightarrow>
          (case fetch_member env uid of
             Inr m \<Rightarrow> Inr (Some m)
           | Inl e \<Rightarrow> if is_http e then Inr None else Inl e))"

text \<open>
  The inner loop \<open>async for user in reaction.users()\<close> with the list \<open>reactors\<close> built so
  far. \<open>member not in reactors\<close> compares members by id, as \<open>discord.Member.__eq__\<close> does.
\<close>

fun collect_users :: "round_env \<Rightarrow> user list \<Rightarrow> member list \<Rightarrow> exn + member list" where
  "collect_users env [] reactors = Inr reactors"
| "collect_users env (u # us) reactors =
     (if \<not> user_bot u then
        (if message_guild env then
           (case get_member_safely env (user_id u) of
              Inl e \<Rightarrow> Inl e
            | Inr None \<Rightarrow> collect_users env us reactors
            | Inr (Some m) \<Rightarrow>
                if member_id m \<notin> set (map member_id reactors)
                then collect_users env us (reactors @ [m])
                else collect_users env us reactors)
         else collect_users env us reactors)
      else collect_users env us reactors)"

text \<open>The outer loop \<open>for reaction in message.reactions\<close>: no test of the emoji.\<close>

fun collect_reactors :: "round_env \<Rightarrow> reaction list \<Rightarrow> member list \<Rightarrow> exn + member list" where
  "collect_reactors env [] reactors = Inr reactors"
| "collect_reactors env (r # rs) reactors =
     (case users r of
        Inl e \<Rightarrow> Inl e
      | Inr us \<Rightarrow>
          (case collect_users env us reactors of
             Inl e \<Rightarrow> Inl e
           | Inr reactors' \<Rightarrow> collect_reactors env rs reactors'))"

definition task_holder_role :: "bot \<Rightarrow> round_env \<Rightarrow> role option" where
  "task_holder_role s env =
     (if message_guild env then find (\<lambda>r. role_name r = TASK_ROLE_NAME) (guild_roles s)
      else None)"

text \<open>\<open>task_holder_role in m.roles\<close>: roles compare by id.\<close>

definition holds_role :: "role option \<Rightarrow> member \<Rightarrow> bool" where
  "holds_role task_role m =
     (case task_role of None \<Rightarrow> False | Some r \<Rightarrow> role_id r \<in> set (member_roles m))"

definition eligible_reactors :: "role option \<Rightarrow> member list \<Rightarrow> member list" where
  "eligible_reactors task_role reactors = filter (\<lambda>m. \<not> holds_role task_role m) reactors"

subsection \<open>Selecting the winners\<close>

text \<open>
  The sort key is \<open>self.reaction_timestamps.get(message.id, {}).get(r.id, datetime.max)\<close>. A
  stored timestamp is timezone-aware; \<open>datetime.max\<close> is naive. Python orders two aware
  datetimes by time, finds \<open>datetime.max < datetime.max\<close> false, and raises \<open>TypeError\<close>
  when \<open><\<close> meets one aware and one naive datetime.
\<close>

datatype datetime = Aware nat | NaiveMax

fun datetime_lt :: "datetime \<Rightarrow> datetime \<Rightarrow> exn + bool" where
  "datetime_lt (Aware a) (Aware b) = Inr (a < b)"
| "datetime_lt NaiveMax NaiveMax = Inr False"
| "datetime_lt (Aware a) NaiveMax = Inl TypeError"
| "datetime_lt NaiveMax (Aware b) = Inl TypeError"

definition sort_key :: "bot \<Rightarrow> nat \<Rightarrow> member \<Rightarrow> datetime" where
  "sort_key s mid m =
     (case reaction_timestamps s mid of
        None \<Rightarrow> NaiveMax
      | Some stamps \<Rightarrow>
          (case stamps (member_id m) of None \<Rightarrow> NaiveMax | Some t \<Rightarrow> Aware t))"

text \<open>
  \<open>sorted(xs, key=...)\<close>: a stable sort that compares keys with \<open><\<close> only and lets an
  exception of the comparison through. It is written as the insertion of each element before
  the sorted rest, going past the elements whose key is smaller.
\<close>

fun insort_py :: "(datetime \<times> 'a) \<Rightarrow> (datetime \<times> 'a) list \<Rightarrow> exn + (datetime \<times> 'a) list" where
  "insort_py x [] = Inr [x]"
| "insort_py x (y # ys) =
     (case datetime_lt (fst y) (fst x) of
        Inl e \<Rightarrow> Inl e
      | Inr True \<Rightarrow>
          (case insort_py x ys of Inl e \<Rightarrow> Inl e | Inr zs \<Rightarrow> Inr (y # zs))
      | Inr False \<Rightarrow> Inr (x # y # ys))"

fun sort_py :: "(datetime \<times> 'a) list \<Rightarrow> exn + (datetime \<times> 'a) list" where
  "sort_py [] = Inr []"
| "sort_py (x # xs) =
     (case sort_py xs of Inl e \<Rightarrow> Inl e | Inr ys \<Rightarrow> insort_py x ys)"

definition sorted_py :: "('a \<Rightarrow> datetime) \<Rightarrow> 'a list \<Rightarrow> exn + 'a list" where
  "sorted_py key xs =
     (case sort_py (map (\<lambda>x. (key x, x)) xs) of
        Inl e \<Rightarrow> Inl e
      | Inr ys \<Rightarrow> Inr (map snd ys))"

text \<open>The slice \<open>xs[:n]\<close>: a negative \<open>n\<close> counts from the end.\<close>

definition slice_to :: "int \<Rightarrow> 'a list \<Rightarrow> 'a list" where
  "slice_to n xs = (if 0 \<le> n then take (nat n) xs else take (length xs - nat (- n)) xs)"

definition select_winners :: "bot \<Rightarrow> nat \<Rightarrow> member list \<Rightarrow> int \<Rightarrow> exn + member list" where
  "select_winners s mid eligible_list tasks_this_round =
     (case sorted_py (sort_key s mid) eligible_list of
        Inl e \<Rightarrow> Inl e
      | Inr sorted_reactors \<Rightarrow> Inr (slice_to tasks_this_round sorted_reactors))"

subsection \<open>Settling the winners\<close>

text \<open>
  The loop \<open>for i, winner_member in enumerate(winners)\<close> from index \<open>i\<close> on, with the list
  \<open>winners_assigned\<close> built so far. Next to it the function returns what each winner's
  \<open>try\<close> body came to, in order.
\<close>

fun process_winners ::
  "bot \<Rightarrow> round_env \<Rightarrow> int \<Rightarrow> nat \<Rightarrow> member list \<Rightarrow> (member \<times> int) list \<Rightarrow> (exn + bool) list
   \<Rightarrow> bot \<times> (member \<times> int) list \<times> (exn + bool) list" where
  "process_winners s env starting_task_num i [] winners_assigned outs =
     (s, winners_assigned, outs)"
| "process_winners s env starting_task_num i (w # ws) winners_assigned outs =
     (case settle_winner s (winner_env env i) (message_guild env) w (starting_task_num + int i) of
        (s', Inr True) \<Rightarrow>
          process_winners s' env starting_task_num (Suc i) ws
            (winners_assigned @ [(w, starting_task_num + int i)]) (outs @ [Inr True])
      | (s', Inr False) \<Rightarrow>
          process_winners s' env starting_task_num (Suc i) ws winners_assigned
            (outs @ [Inr False])
      | (s', Inl e) \<Rightarrow>
          process_winners (emit (Log ERROR) s') env starting_task_num (Suc i) ws
            winners_assigned (outs @ [Inl e]))"

subsection \<open>The cycle\<close>

text \<open>
  How a tick ended, and what it computed on the way: the id of the announcement once the round
  is open, the eligible reactors, the selected winners, and what each winner's settlement came
  to. \<open>Raised e\<close>: the exception \<open>e\<close> reached the outer handler of the cycle.
\<close>

datatype ending =
    StopRequested | Paused | NotConfigured | AllTasksDone | NoTasksLeft
  | StoppedInWindow | Raised exn | Unclaimed | Assigned | NoneAssigned

record report =
  ending :: ending
  message_id :: "nat option"
  eligible :: "member list option"
  winners :: "member list option"
  outcomes :: "(exn + bool) list"

definition skipped :: "ending \<Rightarrow> report" where
  "skipped e = \<lparr>ending = e, message_id = None, eligible = None, winners = None, outcomes = []\<rparr>"

definition stop_loop :: "bot \<Rightarrow> bot" where
  "stop_loop s =
     (case task_allocation_loop s of
        None \<Rightarrow> s
      | Some _ \<Rightarrow> s\<lparr>task_allocation_loop := Some False\<rparr>)"

text \<open>The ping block: each of its branches catches what its send raises.\<close>

definition ping :: "bot \<Rightarrow> round_env \<Rightarrow> bot" where
  "ping s env =
     (if role_to_ping env then
        (case ping_send env of
           None \<Rightarrow> emit (Log INFO) (emit RolePing s)
         | Some e \<Rightarrow> send_log (emit (Log ERROR) (emit RolePing s)) (round_log_send env))
      else send_log (emit (Log WARNING) s) (round_log_send env))"

text \<open>
  \<open>del self.reaction_timestamps[message.id]\<close>, the last statement of the \<open>try\<close> block: it
  raises \<open>KeyError\<close> when the key is gone.
\<close>

definition purge :: "bot \<Rightarrow> nat \<Rightarrow> report \<Rightarrow> bot \<times> report" where
  "purge s mid rep =
     (case reaction_timestamps s mid of
        None \<Rightarrow> (s, rep\<lparr>ending := Raised KeyError\<rparr>)
      | Some _ \<Rightarrow> (s\<lparr>reaction_timestamps := (reaction_timestamps s)(mid := None)\<rparr>, rep))"

text \<open>The cycle from \<open>Process reactions\<close> to the end of the \<open>try\<close> block.\<close>

definition resolve_round :: "bot \<Rightarrow> round_env \<Rightarrow> int \<Rightarrow> int \<Rightarrow> nat \<Rightarrow> bot \<times> report" where
  "resolve_round s env starting_task_num tasks_this_round mid =
     (let s0 = emit (Log INFO) s;
          rep0 = (skipped Unclaimed)\<lparr>message_id := Some mid\<rparr> in
      case fetch_message env of
        Inl e \<Rightarrow> (s0, rep0\<lparr>ending := Raised e\<rparr>)
      | Inr reactions \<Rightarrow>
          (case collect_reactors env reactions [] of
             Inl e \<Rightarrow> (s0, rep0\<lparr>ending := Raised e\<rparr>)
           | Inr reactors \<Rightarrow>
               (let s1 = emit (Log INFO) s0;
                    eligible_list = eligible_reactors (task_holder_role s1 env) reactors;
                    s2 = emit (Log INFO) s1;
                    rep1 = rep0\<lparr>eligible := Some eligible_list\<rparr> in
                if eligible_list \<noteq> [] then
                  (case select_winners s2 mid eligible_list tasks_this_round of
                     Inl e \<Rightarrow> (s2, rep1\<lparr>ending := Raised e\<rparr>)
                   | Inr winner_list \<Rightarrow>
                       (case process_winners (emit (Log INFO) s2) env starting_task_num 0
                               winner_list [] [] of
                          (s3, winners_assigned, outs) \<Rightarrow>
                            (let rep2 = rep1\<lparr>winners := Some winner_list, outcomes := outs\<rparr> in
                             if winners_assigned \<noteq> [] then
                               (let s4 = emit (Log INFO)
                                           (s3\<lparr>current_task :=
                                                 current_task s3 + int (length winners_assigned)\<rparr>);
                                    s5 = emit (Congratulation
                                                (map (\<lambda>(w, n). (member_id w, n)) winners_assigned))
                                           s4 in
                                case result_send env of
                                  Some e \<Rightarrow> (s5, rep2\<lparr>ending := Raised e\<rparr>)
                                | None \<Rightarrow> purge s5 mid (rep2\<lparr>ending := Assigned\<rparr>))
                             else purge (emit (Log WARNING) s3) mid
                                    (rep2\<lparr>ending := NoneAssigned\<rparr>))))
                else
                  (let s3 = emit (UnclaimedNotice starting_task_num tasks_this_round)
                              (emit (Log INFO) s2) in
                   case result_send env of
                     Some e \<Rightarrow> (s3, rep1\<lparr>ending := Raised e\<rparr>)
                   | None \<Rightarrow> purge s3 mid rep1))))"

text \<open>
  The \<open>try\<close> block of the cycle up to the end of the reaction window. The events of the
  window are applied in order while the cycle sleeps.
\<close>

definition round_body :: "bot \<Rightarrow> round_env \<Rightarrow> bot \<times> report" where
  "round_body s env =
     (let starting_task_num = current_task s;
          remaining_tasks = total_tasks s - starting_task_num + 1;
          tasks_this_round = min (winners_per_task s) remaining_tasks in
      if tasks_this_round \<le> 0 then (stop_loop (emit (Log INFO) s), skipped NoTasksLeft)
      else
        (let s1 = emit (Announcement starting_task_num tasks_this_round) (emit (Log INFO) s) in
         case announce_send env of
           Inl e \<Rightarrow> (s1, skipped (Raised e))
         | Inr mid \<Rightarrow>
             (let s2 = emit (AddReaction mid)
                         (s1\<lparr>reaction_timestamps := (reaction_timestamps s1)(mid \<mapsto> Map.empty)\<rparr>)
              in case add_reaction env of
                   Some e \<Rightarrow> (s2, (skipped (Raised e))\<lparr>message_id := Some mid\<rparr>)
                 | None \<Rightarrow>
                     (let s3 = ping (emit (Log INFO) s2) env;
                          s4 = foldl (apply_event (round_log_send env))
                                 (emit (Sleep (reaction_time s3)) s3) (window_events env) in
                      if stop_requested s4
                      then (emit (Log INFO) s4, (skipped StoppedInWindow)\<lparr>message_id := Some mid\<rparr>)
                      else resolve_round s4 env starting_task_num tasks_this_round mid))))"

text \<open>
  \<open>task_allocation_loop_impl\<close>: the checks before the \<open>try\<close> block, the block, and its
  handler \<open>except Exception\<close>, which logs at the critical level and returns.
\<close>

definition task_allocation_loop_impl :: "bot \<Rightarrow> round_env \<Rightarrow> bot \<times> report" where
  "task_allocation_loop_impl s env =
     (let s0 = emit (Log INFO) s in
      if stop_requested s0 then (emit (Log INFO) s0, skipped StopRequested)
      else if is_paused s0 then (emit (Log INFO) s0, skipped Paused)
      else if \<not> (configured s0 \<and> announce_channel s0)
      then (emit (Log WARNING) s0, skipped NotConfigured)
      else if current_task s0 > total_tasks s0
      then (stop_loop (send_log (emit (Log INFO) s0) (round_log_send env)), skipped AllTasksDone)
      else
        (case round_body s0 env of
           (s1, rep) \<Rightarrow>
             (case ending rep of
                Raised e \<Rightarrow> (emit (Log CRITICAL) s1, rep)
              | _ \<Rightarrow> (s1, rep))))"

text \<open>A sequence of ticks, one environment each, with the reports in order.\<close>

fun run_ticks :: "bot \<Rightarrow> round_env list \<Rightarrow> bot \<times> report list" where
  "run_ticks s [] = (s, [])"
| "run_ticks s (env # envs) =
     (case task_allocation_loop_impl s env of
        (s', rep) \<Rightarrow> (case run_ticks s' envs of (s'', reps) \<Rightarrow> (s'', rep # reps)))"

text \<open>The winners of a round whose settlement returned without raising.\<close>

definition returned :: "exn + bool \<Rightarrow> bool" where
  "returned out = (case out of Inl e \<Rightarrow> False | Inr b \<Rightarrow> True)"

definition settled :: "report \<Rightarrow> nat" where
  "settled rep = length (filter returned (outcomes rep))"

subsection \<open>Reading a trace\<close>

text \<open>The calls issued between a state and a later one.\<close>

definition issued :: "bot \<Rightarrow> bot \<Rightarrow> effect list" where
  "issued s s' = drop (length (trace s)) (trace s')"

fun is_open_sheet :: "effect \<Rightarrow> bool" where
  "is_open_sheet (OpenSheet sheet_id) = True"
| "is_open_sheet _ = False"

fun is_update_cell :: "effect \<Rightarrow> bool" where
  "is_update_cell (UpdateCell r c v) = True"
| "is_update_cell _ = False"

text \<open>The delays of the sleeps in a trace, in order.\<close>

fun sleeps :: "effect list \<Rightarrow> nat list" where
  "sleeps [] = []"
| "sleeps (Sleep d # es) = d # sleeps es"
| "sleeps (e # es) = sleeps es"

text \<open>
  A ledger attempt for task \<open>n\<close> raises when the sheet cannot be opened or when the cell
  update raises on a row inside the sheet; it is out of bounds when row \<open>n + 1\<close> lies beyond
  \<open>row_count\<close>.
\<close>

definition attempt_raises :: "sheet_attempt \<Rightarrow> int \<Rightarrow> bool" where
  "attempt_raises a n =
     (case a of OpenRaises e \<Rightarrow> True | Worksheet row_count update \<Rightarrow> n + 1 \<le> row_count \<and> update \<noteq> None)"

definition out_of_bounds :: "sheet_attempt \<Rightarrow> int \<Rightarrow> bool" where
  "out_of_bounds a n =
     (case a of OpenRaises e \<Rightarrow> False | Worksheet row_count update \<Rightarrow> row_count < n + 1)"

text \<open>The recorded time of a sort key, for stating the order of the winners.\<close>

definition time_of :: "datetime \<Rightarrow> nat" where
  "time_of d = (case d of Aware t \<Rightarrow> t | NaiveMax \<Rightarrow> 0)"

subsection \<open>Concrete states and answers\<close>

text \<open>The attributes \<open>TaskBot.__init__\<close> sets, in a guild with no roles.\<close>

definition DEFAULT_SHEETS_URL :: string where
  "DEFAULT_SHEETS_URL =
     ''https://docs.google.com/spreadsheets/d/1umbEoGpC8by9oAvTmFyS_AH7boTL4C55jla2y6JPCEA/edit?usp=sharing''"

definition init_bot :: bot where
  "init_bot =
     \<lparr>total_tasks = 0, current_task = 1, winners_per_task = DEFAULT_WINNERS_PER_TASK,
      configured = False, announce_channel = False, logs_channel = False, gc = False,
      sheet_url = DEFAULT_SHEETS_URL, task_type = ''Comment'', task_description = [],
      reaction_time = 10, is_paused = False, stop_requested = False,
      task_allocation_loop = None, reaction_timestamps = Map.empty, role_removal_tasks = [],
      guild_roles = [], role_holders = {}, trace = []\<rparr>"

text \<open>
  The bot after \<open>on_ready\<close> found its channels and the spreadsheet client, in a guild that
  has the role \<open>TaskHolder\<close> with id 50.
\<close>

definition ready_bot :: bot where
  "ready_bot =
     init_bot\<lparr>configured := True, announce_channel := True, logs_channel := True, gc := True,
              guild_roles := [\<lparr>role_id = 50, role_name = ''TaskHolder''\<rparr>]\<rparr>"

text \<open>A batch of three tasks, two winners per round.\<close>

definition batch_bot :: bot where
  "batch_bot = create_task ready_bot None 3 ''Comment'' (Some 2) None"

definition alice :: member where
  "alice = \<lparr>member_id = 7, member_name = ''alice'', member_roles = []\<rparr>"

definition bob :: member where
  "bob = \<lparr>member_id = 8, member_name = ''bob'', member_roles = []\<rparr>"

definition carol :: member where
  "carol = \<lparr>member_id = 9, member_name = ''carol'', member_roles = [50]\<rparr>"

definition guild_cache :: "nat \<Rightarrow> member option" where
  "guild_cache uid =
     (if uid = 7 then Some alice else if uid = 8 then Some bob
      else if uid = 9 then Some carol else None)"

definition human :: "nat \<Rightarrow> user" where
  "human uid = \<lparr>user_id = uid, user_bot = False\<rparr>"

text \<open>A settlement in which every call returns.\<close>

definition settle_ok :: settle_env where
  "settle_ok =
     \<lparr>create_role = Inl Forbidden, add_roles = None, dm_send = None, fallback_send = None,
      log_send = None, sheet_attempts = (\<lambda>k. Worksheet 1000 None)\<rparr>"

text \<open>A settlement in which the private message is refused and the fallback send fails.\<close>

definition settle_dm_closed :: settle_env where
  "settle_dm_closed = settle_ok\<lparr>dm_send := Some Forbidden, fallback_send := Some Forbidden\<rparr>"

text \<open>
  A round announced as message 900 in which every call returns: alice reacts at time 100 and
  bob at time 200, both with the check mark.
\<close>

definition round_ok :: round_env where
  "round_ok =
     \<lparr>announce_send = Inr 900, add_reaction = None, role_to_ping = True, ping_send = None,
      round_log_send = None,
      window_events = [ReactionAdd 900 (human 7) 100, ReactionAdd 900 (human 8) 200],
      fetch_message =
        Inr [\<lparr>emoji = ''white_check_mark'', users = Inr [human 8, human 7]\<rparr>],
      message_guild = True, get_member = guild_cache,
      fetch_member = (\<lambda>uid. Inl NotFound),
      winner_env = (\<lambda>i. settle_ok), result_send = None\<rparr>"

text \<open>The batch with round 900 open and alice's reaction recorded at time 100.\<close>

definition waiting_bot :: bot where
  "waiting_bot = batch_bot\<lparr>reaction_timestamps := [900 \<mapsto> [7 \<mapsto> 100]]\<rparr>"

text \<open>Ledger answers: every attempt fails to open the sheet.\<close>

definition sheet_down :: "nat \<Rightarrow> sheet_attempt" where
  "sheet_down k = OpenRaises HTTPException"

text \<open>Ledger answers: the first attempt fails, the second finds a sheet of three rows.\<close>

definition sheet_short :: "nat \<Rightarrow> sheet_attempt" where
  "sheet_short k = (if k = 0 then OpenRaises HTTPException else Worksheet 3 None)"

text \<open>
  Round 900 with carol, who holds the role \<open>TaskHolder\<close>, reacting first at time 50, before
  alice and bob.
\<close>

definition round_cooldown :: round_env where
  "round_cooldown =
     round_ok\<lparr>window_events :=
                [ReactionAdd 900 (human 9) 50, ReactionAdd 900 (human 7) 100,
                 ReactionAdd 900 (human 8) 200],
              fetch_message :=
                Inr [\<lparr>emoji = ''white_check_mark'', users = Inr [human 9, human 8, human 7]\<rparr>]\<rparr>"

text \<open>
  Round 900 in which the reaction event of bob never reaches the bot (only alice's is recorded),
  while the fetched message lists both.
\<close>

definition round_missed :: round_env where
  "round_missed = round_ok\<lparr>window_events := [ReactionAdd 900 (human 7) 100]\<rparr>"

text \<open>Round 900 in which alice reacts with a thumbs-up only and nobody uses the check mark.\<close>

definition round_thumbs :: round_env where
  "round_thumbs =
     round_ok\<lparr>window_events := [ReactionAdd 900 (human 7) 100],
              fetch_message := Inr [\<lparr>emoji = ''thumbsup'', users = Inr [human 7]\<rparr>]\<rparr>"

text \<open>Round 900 in which fetching the announcement after the window fails.\<close>

definition round_fetch_fails :: round_env where
  "round_fetch_fails = round_ok\<lparr>fetch_message := Inl HTTPException\<rparr>"

text \<open>
  Round 900 in which alice, the first winner, has her private messages closed and the fallback
  send fails, while bob's settlement goes through.
\<close>

definition round_dm_closed :: round_env where
  "round_dm_closed =
     round_ok\<lparr>winner_env := (\<lambda>i. if i = 0 then settle_dm_closed else settle_ok)\<rparr>"

section \<open>Properties\<close>

subsection \<open>What the logging helpers leave alone\<close>

lemma emit_fields [simp]:
  "total_tasks (emit e s) = total_tasks s"
  "current_task (emit e s) = current_task s"
  "winners_per_task (emit e s) = winners_per_task s"
  "configured (emit e s) = configured s"
  "announce_channel (emit e s) = announce_channel s"
  "logs_channel (emit e s) = logs_channel s"
  "gc (emit e s) = gc s"
  "sheet_url (emit e s) = sheet_url s"
  "reaction_time (emit e s) = reaction_time s"
  "is_paused (emit e s) = is_paused s"
  "stop_requested (emit e s) = stop_requested s"
  "task_allocation_loop (emit e s) = task_allocation_loop s"
  "reaction_timestamps (emit e s) = reaction_timestamps s"
  "role_removal_tasks (emit e s) = role_removal_tasks s"
  "guild_roles (emit e s) = guild_roles s"
  "role_holders (emit e s) = role_holders s"
  "trace (emit e s) = trace s @ [e]"
  by (simp_all add: emit_def)

lemma send_log_fields [simp]:
  "total_tasks (send_log s a) = total_tasks s"
  "current_task (send_log s a) = current_task s"
  "winners_per_task (send_log s a) = winners_per_task s"
  "configured (send_log s a) = configured s"
  "announce_channel (send_log s a) = announce_channel s"
  "logs_channel (send_log s a) = logs_channel s"
  "gc (send_log s a) = gc s"
  "sheet_url (send_log s a) = sheet_url s"
  "reaction_time (send_log s a) = reaction_time s"
  "is_paused (send_log s a) = is_paused s"
  "stop_requested (send_log s a) = stop_requested s"
  "task_allocation_loop (send_log s a) = task_allocation_loop s"
  "reaction_timestamps (send_log s a) = reaction_timestamps s"
  "role_removal_tasks (send_log s a) = role_removal_tasks s"
  "guild_roles (send_log s a) = guild_roles s"
  "role_holders (send_log s a) = role_holders s"
  by (simp_all add: send_log_def split: option.splits)

subsection \<open>Recording reactions\<close>

text \<open>
  C6. Recording is idempotent per round and candidate: when the round \<open>mid\<close> already holds a
  timestamp for the user, delivering a reaction of that user to that round again, at whatever
  clock reading, returns the state it was given. The stored timestamp, the rest of the reaction
  map and every other attribute stay as they were: the first recorded reaction wins.
\<close>

theorem on_reaction_add_first_wins:
  assumes "reaction_timestamps s mid = Some stamps" and "stamps (user_id u) = Some t"
  shows "on_reaction_add s mid u now = s"
  using assms by (simp add: on_reaction_add_def)

theorem on_reaction_add_first_wins_witness:
  "reaction_timestamps waiting_bot 900 = Some [7 \<mapsto> 100] \<and>
   [7 \<mapsto> 100] (user_id (human 7)) = Some (100::nat) \<and>
   on_reaction_add waiting_bot 900 (human 7) 250 = waiting_bot"
proof -
  have h1: "reaction_timestamps waiting_bot 900 = Some [7 \<mapsto> 100]"
    by (simp add: waiting_bot_def)
  have h2: "[7 \<mapsto> 100] (user_id (human 7)) = Some (100::nat)"
    by (simp add: human_def)
  from on_reaction_add_first_wins [OF h1 h2] h1 h2 show ?thesis by blast
qed

subsection \<open>Notification\<close>

text \<open>
  C7, as the code has it. \<open>dm_winner\<close> returns \<open>True\<close> exactly when the private delivery
  returns. It returns \<open>False\<close> exactly when the private delivery raises \<open>Forbidden\<close> or
  another \<open>HTTPException\<close> and the fallback does not raise (the announce channel is unset, or
  its send returns). It issues the public notice tagging the candidate exactly when the private
  delivery raises such an exception and the announce channel is set. It raises \<open>x\<close> past its
  boundary exactly when the private delivery raises an \<open>x\<close> that is no \<open>HTTPException\<close>, or
  when the fallback send itself raises \<open>x\<close>: that failure is not caught inside
  \<open>dm_winner\<close>.
\<close>

theorem dm_winner_boundary:
  "(snd (dm_winner s env m n) = Inr True) = (dm_send env = None) \<and>
   (snd (dm_winner s env m n) = Inr False) =
     (\<exists>e. dm_send env = Some e \<and> is_http e \<and>
        (announce_channel s \<and> fallback_send env = None \<or> \<not> announce_channel s)) \<and>
   (snd (dm_winner s env m n) = Inl x) =
     ((dm_send env = Some x \<and> \<not> is_http x) \<or>
      (\<exists>e. dm_send env = Some e \<and> is_http e \<and> announce_channel s \<and>
         fallback_send env = Some x)) \<and>
   (PublicNotice (member_id m) n \<in> set (issued s (fst (dm_winner s env m n)))) =
     (\<exists>e. dm_send env = Some e \<and> is_http e \<and> announce_channel s)"
  by (auto simp add: dm_winner_def Let_def send_log_def emit_def issued_def split: option.splits)

text \<open>
  C7 as stated fails: with the private message refused and the fallback send refused as well,
  \<open>dm_winner\<close> raises \<open>Forbidden\<close> to its caller.
\<close>

theorem dm_winner_raises_counterexample:
  "snd (dm_winner ready_bot settle_dm_closed alice 1) = Inl Forbidden"
  by code_simp

subsection \<open>The ledger\<close>

lemma sleeps_append [simp]: "sleeps (xs @ ys) = sleeps xs @ sleeps ys"
  by (induction xs rule: sleeps.induct) simp_all

lemma write_attempts_frame:
  "\<exists>new. write_attempts s a n nm atts = s\<lparr>trace := trace s @ new\<rparr> \<and>
         length (filter is_open_sheet new) \<le> length atts \<and>
         length (filter is_update_cell new) \<le> length atts \<and>
         prefix (sleeps new) (map (\<lambda>k. 2 ^ k) (filter (\<lambda>k. k < 2) atts))"
proof (induction atts arbitrary: s)
  case Nil
  show ?case by (rule exI [of _ "[]"]) simp
next
  case (Cons k rest)
  show ?case
  proof (cases "extract_sheet_id (sheet_url s)")
    case None
    show ?thesis
      by (rule exI [of _ "[Log ERROR]"]) (simp add: None emit_def)
  next
    case (Some sid)
    show ?thesis
    proof (cases "a k")
      case (OpenRaises e)
      define s' where "s' = attempt_failed (emit (OpenSheet sid) s) k"
      define pre where "pre = [OpenSheet sid, Log ERROR] @ (if k < 2 then [Sleep (2 ^ k)] else [Log CRITICAL])"
      have s': "s' = s\<lparr>trace := trace s @ pre\<rparr>"
        by (simp add: s'_def pre_def attempt_failed_def emit_def)
      from Cons.IH [of s'] obtain new where
        new: "write_attempts s' a n nm rest = s'\<lparr>trace := trace s' @ new\<rparr>"
          "length (filter is_open_sheet new) \<le> length rest"
          "length (filter is_update_cell new) \<le> length rest"
          "prefix (sleeps new) (map (\<lambda>k. 2 ^ k) (filter (\<lambda>k. k < 2) rest))"
        by blast
      have "write_attempts s a n nm (k # rest) = s\<lparr>trace := trace s @ (pre @ new)\<rparr>"
        using new(1) by (simp add: Some OpenRaises Let_def s'_def [symmetric]) (simp add: s')
      moreover have "length (filter is_open_sheet (pre @ new)) \<le> length (k # rest)"
        using new(2) by (simp add: pre_def)
      moreover have "length (filter is_update_cell (pre @ new)) \<le> length (k # rest)"
        using new(3) by (simp add: pre_def)
      moreover have "prefix (sleeps (pre @ new)) (map (\<lambda>k. 2 ^ k) (filter (\<lambda>k. k < 2) (k # rest)))"
        using new(4) by (simp add: pre_def)
      ultimately show ?thesis by blast
    next
      case (Worksheet rc upd)
      show ?thesis
      proof (cases "n + 1 > rc")
        case True
        show ?thesis
          by (rule exI [of _ "[OpenSheet sid, Log ERROR]"])
            (use True in \<open>simp add: Some Worksheet Let_def emit_def\<close>)
      next
        case False
        show ?thesis
        proof (cases upd)
          case None
          show ?thesis
            by (rule exI [of _ "[OpenSheet sid, UpdateCell (n + 1) 4 nm, Log INFO]"])
              (use False in \<open>simp add: Some Worksheet None Let_def emit_def\<close>)
        next
          case (Some e)
          define s' where
            "s' = attempt_failed (emit (UpdateCell (n + 1) 4 nm) (emit (OpenSheet sid) s)) k"
          define pre where "pre = [OpenSheet sid, UpdateCell (n + 1) 4 nm, Log ERROR] @
             (if k < 2 then [Sleep (2 ^ k)] else [Log CRITICAL])"
          have s': "s' = s\<lparr>trace := trace s @ pre\<rparr>"
            by (simp add: s'_def pre_def attempt_failed_def emit_def)
          from Cons.IH [of s'] obtain new where
            new: "write_attempts s' a n nm rest = s'\<lparr>trace := trace s' @ new\<rparr>"
              "length (filter is_open_sheet new) \<le> length rest"
              "length (filter is_update_cell new) \<le> length rest"
              "prefix (sleeps new) (map (\<lambda>k. 2 ^ k) (filter (\<lambda>k. k < 2) rest))"
            by blast
          have "write_attempts s a n nm (k # rest) = s\<lparr>trace := trace s @ (pre @ new)\<rparr>"
            using new(1) False
            by (simp add: \<open>extract_sheet_id (sheet_url s) = Some sid\<close> Worksheet Some
                Let_def s'_def [symmetric]) (simp add: s')
          moreover have "length (filter is_open_sheet (pre @ new)) \<le> length (k # rest)"
            using new(2) by (simp add: pre_def)
          moreover have "length (filter is_update_cell (pre @ new)) \<le> length (k # rest)"
            using new(3) by (simp add: pre_def)
          moreover have "prefix (sleeps (pre @ new)) (map (\<lambda>k. 2 ^ k) (filter (\<lambda>k. k < 2) (k # rest)))"
            using new(4) by (simp add: pre_def)
          ultimately show ?thesis by blast
        qed
      qed
    qed
  qed
qed

lemma issued_frame [simp]: "issued s (s\<lparr>trace := trace s @ new\<rparr>) = new"
  by (simp add: issued_def)

lemma write_to_sheet_frame:
  "\<exists>new. write_to_sheet s a n nm = s\<lparr>trace := trace s @ new\<rparr> \<and>
         length (filter is_open_sheet new) \<le> 3 \<and>
         length (filter is_update_cell new) \<le> 3 \<and>
         prefix (sleeps new) [1, 2]"
proof (cases "gc s \<and> sheet_url s \<noteq> []")
  case False
  show ?thesis
    by (rule exI [of _ "[Log INFO, Log WARNING]"])
      (use False in \<open>auto simp add: write_to_sheet_def Let_def emit_def\<close>)
next
  case True
  define s0 where "s0 = emit (Log INFO) s"
  have s0: "s0 = s\<lparr>trace := trace s @ [Log INFO]\<rparr>"
    by (simp add: s0_def emit_def)
  from write_attempts_frame [of s0 a n nm "[0, 1, 2]"] obtain new where
    new: "write_attempts s0 a n nm [0, 1, 2] = s0\<lparr>trace := trace s0 @ new\<rparr>"
      "length (filter is_open_sheet new) \<le> 3"
      "length (filter is_update_cell new) \<le> 3"
      "prefix (sleeps new) [1, 2]"
    by auto
  have "write_to_sheet s a n nm = s\<lparr>trace := trace s @ (Log INFO # new)\<rparr>"
    using True new(1) by (simp add: write_to_sheet_def Let_def s0_def [symmetric]) (simp add: s0)
  with new(2-4) show ?thesis
    by (intro exI [of _ "Log INFO # new"]) simp
qed

lemma prefix_12: "prefix xs [1::nat, 2] \<Longrightarrow> xs \<in> {[], [1], [1, 2]}"
  by (auto simp add: prefix_Cons prefix_def Cons_eq_append_conv)

lemma oob_not_retried:
  assumes "gc s" "extract_sheet_id (sheet_url s) \<noteq> None" "k < 3"
    "\<forall>j<k. attempt_raises (a j) n" "out_of_bounds (a k) n"
  shows "length (filter is_open_sheet (issued s (write_to_sheet s a n nm))) = k + 1 \<and>
         length (filter is_update_cell (issued s (write_to_sheet s a n nm))) \<le> k \<and>
         sleeps (issued s (write_to_sheet s a n nm)) = take k [1, 2] \<and>
         Log CRITICAL \<notin> set (issued s (write_to_sheet s a n nm))"
proof -
  from assms(2) have url: "sheet_url s \<noteq> []" by auto
  from assms(3) consider "k = 0" | "k = 1" | "k = 2" by linarith
  then show ?thesis
  proof cases
    case 1
    with assms url show ?thesis
      by (auto simp add: write_to_sheet_def Let_def emit_def issued_def out_of_bounds_def
          split: sheet_attempt.splits)
  next
    case 2
    with assms url show ?thesis
      by (auto simp add: write_to_sheet_def Let_def emit_def issued_def out_of_bounds_def
          attempt_raises_def attempt_failed_def split: sheet_attempt.splits)
  next
    case 3
    then have "attempt_raises (a 0) n" "attempt_raises (a 1) n"
      using assms(4) by auto
    with 3 assms(1,2,5) url show ?thesis
      by (auto simp add: write_to_sheet_def Let_def emit_def issued_def out_of_bounds_def
          attempt_raises_def attempt_failed_def split: sheet_attempt.splits)
  qed
qed

lemma exhausted_critical:
  assumes "gc s" "extract_sheet_id (sheet_url s) \<noteq> None"
    "\<forall>j<3. attempt_raises (a j) n"
  shows "length (filter is_open_sheet (issued s (write_to_sheet s a n nm))) = 3 \<and>
         sleeps (issued s (write_to_sheet s a n nm)) = [1, 2] \<and>
         last (issued s (write_to_sheet s a n nm)) = Log CRITICAL"
proof -
  from assms(2) have url: "sheet_url s \<noteq> []" by auto
  have "attempt_raises (a 0) n" "attempt_raises (a 1) n" "attempt_raises (a 2) n"
    using assms(3) by auto
  with assms(1,2) url show ?thesis
      by (auto simp add: write_to_sheet_def Let_def emit_def issued_def
          attempt_raises_def attempt_failed_def split: sheet_attempt.splits)
qed

text \<open>
  C8. \<open>write_to_sheet\<close> returns (its type has no exception) and changes nothing but the
  trace, so \<open>current_task\<close>, the granted roles and the scheduled removals are as before. It
  opens the sheet at most 3 times and calls the cell update at most 3 times. Its sleeps are a
  prefix of 1 s, 2 s: the delay \<open>2 ^ attempt\<close> doubles with each attempt. When attempt \<open>k\<close>
  finds the row out of bounds after \<open>k\<close> failed attempts, exactly \<open>k + 1\<close> attempts are made,
  none after it, and no critical log is written. When all three attempts raise, three attempts
  are made with the sleeps 1 s and 2 s between them, and the last call is the critical log.
\<close>

theorem write_to_sheet_bounded_retry:
  "write_to_sheet s a n nm = s\<lparr>trace := trace s @ issued s (write_to_sheet s a n nm)\<rparr> \<and>
   current_task (write_to_sheet s a n nm) = current_task s \<and>
   role_holders (write_to_sheet s a n nm) = role_holders s \<and>
   role_removal_tasks (write_to_sheet s a n nm) = role_removal_tasks s \<and>
   length (filter is_open_sheet (issued s (write_to_sheet s a n nm))) \<le> 3 \<and>
   length (filter is_update_cell (issued s (write_to_sheet s a n nm))) \<le> 3 \<and>
   sleeps (issued s (write_to_sheet s a n nm)) \<in> {[], [1], [1, 2]} \<and>
   (\<forall>k<3. gc s \<and> extract_sheet_id (sheet_url s) \<noteq> None \<and>
       (\<forall>j<k. attempt_raises (a j) n) \<and> out_of_bounds (a k) n \<longrightarrow>
       length (filter is_open_sheet (issued s (write_to_sheet s a n nm))) = k + 1 \<and>
       length (filter is_update_cell (issued s (write_to_sheet s a n nm))) \<le> k \<and>
       sleeps (issued s (write_to_sheet s a n nm)) = take k [1, 2] \<and>
       Log CRITICAL \<notin> set (issued s (write_to_sheet s a n nm))) \<and>
   (gc s \<and> extract_sheet_id (sheet_url s) \<noteq> None \<and> (\<forall>j<3. attempt_raises (a j) n) \<longrightarrow>
       length (filter is_open_sheet (issued s (write_to_sheet s a n nm))) = 3 \<and>
       sleeps (issued s (write_to_sheet s a n nm)) = [1, 2] \<and>
       last (issued s (write_to_sheet s a n nm)) = Log CRITICAL)"
proof -
  from write_to_sheet_frame [of s a n nm] obtain new where
    new: "write_to_sheet s a n nm = s\<lparr>trace := trace s @ new\<rparr>"
      "length (filter is_open_sheet new) \<le> 3"
      "length (filter is_update_cell new) \<le> 3"
      "prefix (sleeps new) [1, 2]"
    by blast
  have iss: "issued s (write_to_sheet s a n nm) = new"
    by (simp add: new(1))
  have frame: "write_to_sheet s a n nm = s\<lparr>trace := trace s @ issued s (write_to_sheet s a n nm)\<rparr>"
    by (simp only: iss) (rule new(1))
  have fields: "current_task (write_to_sheet s a n nm) = current_task s"
    "role_holders (write_to_sheet s a n nm) = role_holders s"
    "role_removal_tasks (write_to_sheet s a n nm) = role_removal_tasks s"
    by (simp_all add: new(1))
  have counts: "length (filter is_open_sheet (issued s (write_to_sheet s a n nm))) \<le> 3"
    "length (filter is_update_cell (issued s (write_to_sheet s a n nm))) \<le> 3"
    "sleeps (issued s (write_to_sheet s a n nm)) \<in> {[], [1], [1, 2]}"
    using new(2-4) prefix_12 by (simp_all only: iss)
  have oob: "\<forall>k<3. gc s \<and> extract_sheet_id (sheet_url s) \<noteq> None \<and>
       (\<forall>j<k. attempt_raises (a j) n) \<and> out_of_bounds (a k) n \<longrightarrow>
       length (filter is_open_sheet (issued s (write_to_sheet s a n nm))) = k + 1 \<and>
       length (filter is_update_cell (issued s (write_to_sheet s a n nm))) \<le> k \<and>
       sleeps (issued s (write_to_sheet s a n nm)) = take k [1, 2] \<and>
       Log CRITICAL \<notin> set (issued s (write_to_sheet s a n nm))"
  proof (intro allI impI)
    fix k :: nat
    assume k: "k < 3"
      and h: "gc s \<and> extract_sheet_id (sheet_url s) \<noteq> None \<and>
        (\<forall>j<k. attempt_raises (a j) n) \<and> out_of_bounds (a k) n"
    from h have h1: "gc s" and h2: "extract_sheet_id (sheet_url s) \<noteq> None"
      and h3: "\<forall>j<k. attempt_raises (a j) n" and h4: "out_of_bounds (a k) n"
      by simp_all
    show "length (filter is_open_sheet (issued s (write_to_sheet s a n nm))) = k + 1 \<and>
       length (filter is_update_cell (issued s (write_to_sheet s a n nm))) \<le> k \<and>
       sleeps (issued s (write_to_sheet s a n nm)) = take k [1, 2] \<and>
       Log CRITICAL \<notin> set (issued s (write_to_sheet s a n nm))"
      by (rule oob_not_retried [OF h1 h2 k h3 h4])
  qed
  have exh: "gc s \<and> extract_sheet_id (sheet_url s) \<noteq> None \<and> (\<forall>j<3. attempt_raises (a j) n) \<longrightarrow>
       length (filter is_open_sheet (issued s (write_to_sheet s a n nm))) = 3 \<and>
       sleeps (issued s (write_to_sheet s a n nm)) = [1, 2] \<and>
       last (issued s (write_to_sheet s a n nm)) = Log CRITICAL"
  proof (intro impI)
    assume h: "gc s \<and> extract_sheet_id (sheet_url s) \<noteq> None \<and> (\<forall>j<3. attempt_raises (a j) n)"
    from h have h1: "gc s" and h2: "extract_sheet_id (sheet_url s) \<noteq> None"
      and h3: "\<forall>j<3. attempt_raises (a j) n"
      by simp_all
    show "length (filter is_open_sheet (issued s (write_to_sheet s a n nm))) = 3 \<and>
       sleeps (issued s (write_to_sheet s a n nm)) = [1, 2] \<and>
       last (issued s (write_to_sheet s a n nm)) = Log CRITICAL"
      by (rule exhausted_critical [OF h1 h2 h3])
  qed
  show ?thesis
    by (intro conjI) (rule frame fields counts oob exh)+
qed

theorem write_to_sheet_bounded_retry_witness:
  "gc ready_bot \<and> extract_sheet_id (sheet_url ready_bot) \<noteq> None \<and>
   attempt_raises (sheet_down 0) 5 \<and> attempt_raises (sheet_down 1) 5 \<and>
   attempt_raises (sheet_down 2) 5 \<and>
   sleeps (issued ready_bot (write_to_sheet ready_bot sheet_down 5 ''alice'')) = [1, 2] \<and>
   last (issued ready_bot (write_to_sheet ready_bot sheet_down 5 ''alice'')) = Log CRITICAL \<and>
   current_task (write_to_sheet ready_bot sheet_down 5 ''alice'') = current_task ready_bot \<and>
   attempt_raises (sheet_short 0) 5 \<and> out_of_bounds (sheet_short 1) 5 \<and>
   length (filter is_open_sheet
     (issued ready_bot (write_to_sheet ready_bot sheet_short 5 ''alice''))) = 2 \<and>
   Log CRITICAL \<notin> set (issued ready_bot (write_to_sheet ready_bot sheet_short 5 ''alice''))"
proof -
  note c2 = conjunct2
  have g: "gc ready_bot" by (simp add: ready_bot_def)
  have u: "extract_sheet_id (sheet_url ready_bot) \<noteq> None" by code_simp
  have d: "\<forall>j<3. attempt_raises (sheet_down j) 5"
    by (simp add: attempt_raises_def sheet_down_def)
  have dk: "attempt_raises (sheet_down 0) 5" "attempt_raises (sheet_down 1) 5"
    "attempt_raises (sheet_down 2) 5"
    by (simp_all add: attempt_raises_def sheet_down_def)
  have s0: "attempt_raises (sheet_short 0) 5"
    by (simp add: attempt_raises_def sheet_short_def)
  have s1: "out_of_bounds (sheet_short 1) 5"
    by (simp add: out_of_bounds_def sheet_short_def)
  note down = write_to_sheet_bounded_retry [of ready_bot sheet_down 5 "''alice''"]
  note down_all = down [THEN c2, THEN c2, THEN c2, THEN c2, THEN c2, THEN c2, THEN c2, THEN c2,
      THEN mp, OF conjI [OF g conjI [OF u d]]]
  note down_ct = down [THEN c2, THEN conjunct1]
  have before: "\<forall>j<1. attempt_raises (sheet_short j) 5" using s0 by simp
  note short = write_to_sheet_bounded_retry [of ready_bot sheet_short 5 "''alice''"]
  have one: "(1::nat) < 3" by simp
  note short_all = short [THEN c2, THEN c2, THEN c2, THEN c2, THEN c2, THEN c2, THEN c2,
      THEN conjunct1, THEN spec, THEN mp, OF one, THEN mp,
      OF conjI [OF g conjI [OF u conjI [OF before s1]]]]
  have opens: "length (filter is_open_sheet
     (issued ready_bot (write_to_sheet ready_bot sheet_short 5 ''alice''))) = 2"
    using short_all [THEN conjunct1] by simp
  show ?thesis
    by (intro conjI)
      (rule g u dk s0 s1 down_all [THEN c2, THEN conjunct1] down_all [THEN c2, THEN c2] down_ct
        opens short_all [THEN c2, THEN c2, THEN c2])+
qed

subsection \<open>The task counter\<close>

lemma on_reaction_add_current_task [simp]:
  "current_task (on_reaction_add s mid u now) = current_task s"
  by (simp add: on_reaction_add_def split: option.splits)

lemma stop_tasks_current_task [simp]: "current_task (stop_tasks s a) = current_task s"
  by (simp add: stop_tasks_def Let_def split: option.splits bool.splits)

lemma apply_event_current_task [simp]: "current_task (apply_event a s ev) = current_task s"
  by (simp add: apply_event_def split: event.splits)

lemma events_current_task [simp]:
  "current_task (foldl (apply_event a) s evs) = current_task s"
  by (induction evs arbitrary: s) simp_all

lemma ping_current_task [simp]: "current_task (ping s env) = current_task s"
  by (simp add: ping_def split: option.splits)

lemma stop_loop_current_task [simp]: "current_task (stop_loop s) = current_task s"
  by (simp add: stop_loop_def split: option.splits)

lemma write_to_sheet_current_task [simp]:
  "current_task (write_to_sheet s a n nm) = current_task s"
proof -
  from write_to_sheet_frame [of s a n nm] obtain new where
    "write_to_sheet s a n nm = s\<lparr>trace := trace s @ new\<rparr>" by blast
  then show ?thesis by simp
qed

lemma dm_winner_current_task [simp]:
  "current_task (fst (dm_winner s env m n)) = current_task s"
  by (simp add: dm_winner_def Let_def split: option.splits)

lemma get_or_create_role_current_task [simp]:
  "current_task (fst (get_or_create_role s env nm)) = current_task s"
  by (simp add: get_or_create_role_def Let_def split: option.splits sum.splits)

lemma dm_winner_current_task_eq:
  "dm_winner s env m n = (s', r) \<Longrightarrow> current_task s' = current_task s"
  using dm_winner_current_task [of s env m n] by simp

lemma get_or_create_role_current_task_eq:
  "get_or_create_role s env nm = (s', r) \<Longrightarrow> current_task s' = current_task s"
  using get_or_create_role_current_task [of s env nm] by simp

lemma settle_winner_current_task [simp]:
  "current_task (fst (settle_winner s env g w n)) = current_task s"
  unfolding settle_winner_def Let_def
  by (auto split: prod.splits sum.splits option.splits
      dest!: dm_winner_current_task_eq get_or_create_role_current_task_eq)

lemma settle_winner_guild:
  "snd (settle_winner s env True w n) \<noteq> Inr False"
  unfolding settle_winner_def Let_def
  by (auto split: prod.splits sum.splits option.splits)

lemma returned_simps [simp]: "returned (Inr b) = True" "returned (Inl e) = False"
  by (simp_all add: returned_def)

lemma process_winners_counts:
  assumes "process_winners s env st i ws acc outs = (s', acc', outs')" "message_guild env"
  shows "current_task s' = current_task s \<and>
         length acc' + length (filter returned outs) = length acc + length (filter returned outs')"
  using assms
proof (induction ws arbitrary: s i acc outs)
  case Nil
  then show ?case by simp
next
  case (Cons w ws)
  obtain s1 r where sw: "settle_winner s (winner_env env i) (message_guild env) w (st + int i) = (s1, r)"
    by (cases "settle_winner s (winner_env env i) (message_guild env) w (st + int i)")
  have ct: "current_task s1 = current_task s"
    using settle_winner_current_task [of s "winner_env env i" "message_guild env" w "st + int i"]
    by (simp add: sw)
  have "settle_winner s (winner_env env i) True w (st + int i) = (s1, r)"
    using sw Cons.prems(2) by simp
  then have nf: "r \<noteq> Inr False"
    using settle_winner_guild [of s "winner_env env i" w "st + int i"] by simp
  show ?case
  proof (cases r)
    case (Inl e)
    with Cons.prems sw have
      "process_winners (emit (Log ERROR) s1) env st (Suc i) ws acc (outs @ [Inl e]) = (s', acc', outs')"
      by simp
    from Cons.IH [OF this Cons.prems(2)] ct show ?thesis by simp
  next
    case (Inr b)
    with nf have b: "b = True" by simp
    with Cons.prems sw Inr have
      "process_winners s1 env st (Suc i) ws (acc @ [(w, st + int i)]) (outs @ [Inr True]) = (s', acc', outs')"
      by simp
    from Cons.IH [OF this Cons.prems(2)] ct show ?thesis by simp
  qed
qed

lemma collect_users_no_guild:
  "collect_users env us acc = Inr r \<Longrightarrow> \<not> message_guild env \<Longrightarrow> r = acc"
  by (induction us arbitrary: acc) (auto split: if_splits)

lemma collect_reactors_no_guild:
  "collect_reactors env rs acc = Inr r \<Longrightarrow> \<not> message_guild env \<Longrightarrow> r = acc"
  by (induction rs arbitrary: acc) (auto split: sum.splits dest: collect_users_no_guild)

lemma purge_keeps:
  "purge s mid rep = (s', r) \<Longrightarrow>
     current_task s' = current_task s \<and> outcomes r = outcomes rep \<and>
     eligible r = eligible rep \<and> winners r = winners rep"
  by (auto simp add: purge_def split: option.splits)

lemma settled_skipped [simp]: "settled (skipped e) = 0"
  by (simp add: settled_def skipped_def)

lemma resolve_round_counter:
  assumes "resolve_round s env st ttr mid = (s', r)"
  shows "current_task s' = current_task s + int (settled r)"
proof (cases "fetch_message env")
  case (Inl e)
  with assms show ?thesis by (auto simp add: resolve_round_def Let_def settled_def skipped_def)
next
  case (Inr reactions)
  note fm = this
  show ?thesis
  proof (cases "collect_reactors env reactions []")
    case (Inl e)
    with assms fm show ?thesis
      by (auto simp add: resolve_round_def Let_def settled_def skipped_def)
  next
    case (Inr reactors)
    note cr = this
    define el where "el = eligible_reactors (task_holder_role s env) reactors"
    have thr: "task_holder_role (emit (Log INFO) (emit (Log INFO) s)) env = task_holder_role s env"
      by (simp add: task_holder_role_def)
    show ?thesis
    proof (cases "el = []")
      case True
      with assms fm cr thr show ?thesis
        by (auto simp add: resolve_round_def Let_def settled_def skipped_def el_def
            split: option.splits dest!: purge_keeps)
    next
      case False
      then have "reactors \<noteq> []" by (auto simp add: el_def eligible_reactors_def)
      with cr have g: "message_guild env"
        using collect_reactors_no_guild by blast
      define s2 where "s2 = emit (Log INFO) (emit (Log INFO) (emit (Log INFO) s))"
      show ?thesis
      proof (cases "select_winners s2 mid el ttr")
        case (Inl e)
        with assms fm cr thr False show ?thesis
          by (auto simp add: resolve_round_def Let_def settled_def skipped_def el_def s2_def)
      next
        case (Inr ws)
        obtain s3 wa outs where pw:
          "process_winners (emit (Log INFO) s2) env st 0 ws [] [] = (s3, wa, outs)"
          by (cases "process_winners (emit (Log INFO) s2) env st 0 ws [] []") auto
        from process_winners_counts [OF pw g]
        have c: "current_task s3 = current_task s" "length wa = length (filter returned outs)"
          by (simp_all add: s2_def)
        from assms fm cr thr False Inr pw c show ?thesis
          by (auto simp add: resolve_round_def Let_def settled_def skipped_def el_def
              s2_def [symmetric] split: option.splits if_splits dest!: purge_keeps)
      qed
    qed
  qed
qed

lemma round_body_counter:
  assumes "round_body s env = (s', r)"
  shows "current_task s' = current_task s + int (settled r)"
proof (cases "min (winners_per_task s) (total_tasks s - current_task s + 1) \<le> 0")
  case True
  with assms show ?thesis by (auto simp add: round_body_def Let_def)
next
  case False
  note pos = this
  show ?thesis
  proof (cases "announce_send env")
    case (Inl e)
    with assms pos show ?thesis by (auto simp add: round_body_def Let_def)
  next
    case (Inr mid)
    note an = this
    show ?thesis
    proof (cases "add_reaction env")
      case (Some e)
      with assms pos an show ?thesis
        by (auto simp add: round_body_def Let_def settled_def skipped_def)
    next
      case None
      with assms pos an show ?thesis
        by (auto simp add: round_body_def Let_def settled_def skipped_def
            split: if_splits dest!: resolve_round_counter)
    qed
  qed
qed

lemma tick_counter:
  assumes "task_allocation_loop_impl s env = (s', r)"
  shows "current_task s' = current_task s + int (settled r)"
  using assms
  by (auto simp add: task_allocation_loop_impl_def Let_def
      split: if_splits prod.splits ending.splits dest!: round_body_counter)

lemma run_ticks_counter:
  "current_task (fst (run_ticks s envs)) =
     current_task s + int (sum_list (map settled (snd (run_ticks s envs))))"
proof (induction envs arbitrary: s)
  case Nil
  show ?case by simp
next
  case (Cons env envs)
  obtain s1 r where t: "task_allocation_loop_impl s env = (s1, r)"
    by (cases "task_allocation_loop_impl s env")
  obtain s2 rs where u: "run_ticks s1 envs = (s2, rs)"
    by (cases "run_ticks s1 envs")
  from Cons.IH [of s1] u have "current_task s2 = current_task s1 + int (sum_list (map settled rs))"
    by simp
  with tick_counter [OF t] show ?case by (simp add: t u)
qed

lemma run_ticks_append:
  "fst (run_ticks s (envs @ later)) = fst (run_ticks (fst (run_ticks s envs)) later)"
  by (induction envs arbitrary: s) (simp_all add: split_beta)

lemma restart_task_loop_current_task [simp]:
  "current_task (restart_task_loop s) = current_task s"
  by (simp add: restart_task_loop_def Let_def split: option.splits bool.splits)

lemma create_task_current:
  "configured s \<Longrightarrow> current_task (create_task s a tasks ty w d) = 1"
  by (simp add: create_task_def Let_def)

text \<open>
  C1. After \<open>/create_task\<close> on a configured bot \<open>current_task\<close> is 1. After any sequence of
  ticks it is 1 plus the number of winners, over all rounds so far, whose settlement returned
  without raising; it never decreases when further ticks follow; and every single tick, from
  any state, advances it by exactly the number of winners of that tick whose settlement returned,
  so a round whose settlements fail in part or in whole advances it by the successful count
  only.
\<close>

theorem current_task_counts_settled:
  assumes "configured s"
  shows "current_task (create_task s a tasks ty w d) = 1 \<and>
         current_task (fst (run_ticks (create_task s a tasks ty w d) envs)) =
           1 + int (sum_list (map settled (snd (run_ticks (create_task s a tasks ty w d) envs)))) \<and>
         current_task (fst (run_ticks (create_task s a tasks ty w d) envs)) \<le>
           current_task (fst (run_ticks (create_task s a tasks ty w d) (envs @ later))) \<and>
         current_task (fst (task_allocation_loop_impl s1 env)) =
           current_task s1 + int (settled (snd (task_allocation_loop_impl s1 env)))"
proof -
  let ?s0 = "create_task s a tasks ty w d"
  have one: "current_task ?s0 = 1" using assms by (rule create_task_current)
  have run: "current_task (fst (run_ticks ?s0 envs)) =
      1 + int (sum_list (map settled (snd (run_ticks ?s0 envs))))"
    using run_ticks_counter [of ?s0 envs] one by simp
  have mono: "current_task (fst (run_ticks ?s0 envs)) \<le>
      current_task (fst (run_ticks ?s0 (envs @ later)))"
    using run_ticks_counter [of "fst (run_ticks ?s0 envs)" later]
    by (simp add: run_ticks_append)
  have tick: "current_task (fst (task_allocation_loop_impl s1 env)) =
      current_task s1 + int (settled (snd (task_allocation_loop_impl s1 env)))"
    using tick_counter [of s1 env] by (cases "task_allocation_loop_impl s1 env") simp
  from one run mono tick show ?thesis by blast
qed

theorem current_task_counts_settled_witness:
  "configured ready_bot \<and>
   current_task (fst (run_ticks batch_bot [round_ok])) =
     1 + int (sum_list (map settled (snd (run_ticks batch_bot [round_ok])))) \<and>
   sum_list (map settled (snd (run_ticks batch_bot [round_ok]))) = 2"
proof -
  have c: "configured ready_bot" by (simp add: ready_bot_def)
  have n: "sum_list (map settled (snd (run_ticks batch_bot [round_ok]))) = 2" by code_simp
  note th = current_task_counts_settled [OF c, of None 3 "''Comment''" "Some 2" None "[round_ok]"]
  have "current_task (fst (run_ticks batch_bot [round_ok])) =
     1 + int (sum_list (map settled (snd (run_ticks batch_bot [round_ok]))))"
    unfolding batch_bot_def by (rule th [THEN conjunct2, THEN conjunct1])
  with c n show ?thesis by (intro conjI)
qed

subsection \<open>Selecting the winners\<close>

lemma insort_py_shape:
  "insort_py x ys = Inr zs \<Longrightarrow> length zs = Suc (length ys) \<and> set zs = insert x (set ys)"
proof (induction ys arbitrary: zs)
  case Nil
  then show ?case by auto
next
  case (Cons y ys)
  show ?case
  proof (cases "datetime_lt (fst y) (fst x)")
    case (Inl e)
    with Cons.prems show ?thesis by simp
  next
    case (Inr b)
    show ?thesis
    proof (cases b)
      case False
      with Inr Cons.prems show ?thesis by auto
    next
      case True
      with Inr Cons.prems obtain zs' where z: "insort_py x ys = Inr zs'" "zs = y # zs'"
        by (auto split: sum.splits)
      from Cons.IH [OF z(1)] z(2) show ?thesis by auto
    qed
  qed
qed

lemma sort_py_shape:
  "sort_py xs = Inr ys \<Longrightarrow> length ys = length xs \<and> set ys = set xs"
proof (induction xs arbitrary: ys)
  case Nil
  then show ?case by simp
next
  case (Cons x xs)
  from Cons.prems obtain zs where z: "sort_py xs = Inr zs" "insort_py x zs = Inr ys"
    by (auto split: sum.splits)
  from Cons.IH [OF z(1)] insort_py_shape [OF z(2)] show ?case by simp
qed

lemma insort_py_raises: "insort_py x ys = Inl e \<Longrightarrow> e = TypeError"
proof (induction ys)
  case Nil
  then show ?case by simp
next
  case (Cons y ys)
  then show ?case
    by (cases "fst y"; cases "fst x") (auto split: sum.splits bool.splits if_splits)
qed

lemma sort_py_raises: "sort_py xs = Inl e \<Longrightarrow> e = TypeError"
  by (induction xs) (auto split: sum.splits dest: insort_py_raises)

lemma sorted_py_shape:
  assumes "sorted_py key xs = Inr ys"
  shows "length ys = length xs \<and> set ys = set xs"
proof -
  from assms obtain zs where z: "sort_py (map (\<lambda>x. (key x, x)) xs) = Inr zs" "ys = map snd zs"
    by (auto simp add: sorted_py_def split: sum.splits)
  from sort_py_shape [OF z(1)] have "length zs = length xs" "set zs = (\<lambda>x. (key x, x)) ` set xs"
    by simp_all
  with z(2) show ?thesis by (simp add: image_image)
qed

lemma select_winners_shape:
  assumes "select_winners s mid el n = Inr ws" "0 \<le> n"
  shows "int (length ws) = min n (int (length el)) \<and> set ws \<subseteq> set el"
proof -
  from assms(1) obtain ys where y: "sorted_py (sort_key s mid) el = Inr ys" "ws = slice_to n ys"
    by (auto simp add: select_winners_def split: sum.splits)
  from sorted_py_shape [OF y(1)] have l: "length ys = length el" "set ys = set el" by simp_all
  from y(2) assms(2) have "ws = take (nat n) ys" by (simp add: slice_to_def)
  with l show ?thesis using assms(2) by (auto dest: in_set_takeD)
qed

lemma select_winners_raises: "select_winners s mid el n = Inl e \<Longrightarrow> e = TypeError"
  by (auto simp add: select_winners_def sorted_py_def split: sum.splits dest: sort_py_raises)

lemma purge_report:
  "purge s mid rep = (s', r) \<Longrightarrow> eligible r = eligible rep \<and> winners r = winners rep"
  by (auto simp add: purge_def split: option.splits)

lemma resolve_round_report:
  assumes "resolve_round s env st ttr mid = (s', r)" "eligible r = Some el"
  shows "el = eligible_reactors (task_holder_role s env)
           (case collect_reactors env (case fetch_message env of Inr rs \<Rightarrow> rs | Inl e \<Rightarrow> []) [] of
              Inr reactors \<Rightarrow> reactors | Inl e \<Rightarrow> []) \<and>
         (\<forall>ws. winners r = Some ws \<longrightarrow> (\<exists>sx. select_winners sx mid el ttr = Inr ws)) \<and>
         (el = [] \<longrightarrow> winners r = None) \<and>
         (el \<noteq> [] \<and> winners r = None \<longrightarrow> ending r = Raised TypeError)"
proof (cases "fetch_message env")
  case (Inl e)
  with assms show ?thesis by (auto simp add: resolve_round_def Let_def skipped_def)
next
  case (Inr reactions)
  note fm = this
  show ?thesis
  proof (cases "collect_reactors env reactions []")
    case (Inl e)
    with assms fm show ?thesis by (auto simp add: resolve_round_def Let_def skipped_def)
  next
    case (Inr reactors)
    note cr = this
    define el' where "el' = eligible_reactors (task_holder_role s env) reactors"
    have thr: "task_holder_role (emit (Log INFO) (emit (Log INFO) s)) env = task_holder_role s env"
      by (simp add: task_holder_role_def)
    show ?thesis
    proof (cases "el' = []")
      case True
      with assms fm cr thr show ?thesis
        by (auto simp add: resolve_round_def Let_def skipped_def el'_def
            split: option.splits dest!: purge_report)
    next
      case False
      define s2 where "s2 = emit (Log INFO) (emit (Log INFO) (emit (Log INFO) s))"
      show ?thesis
      proof (cases "select_winners s2 mid el' ttr")
        case (Inl e)
        then have "e = TypeError" by (rule select_winners_raises)
        with Inl assms fm cr thr False show ?thesis
          by (auto simp add: resolve_round_def Let_def skipped_def el'_def s2_def)
      next
        case (Inr ws)
        obtain s3 wa outs where pw:
          "process_winners (emit (Log INFO) s2) env st 0 ws [] [] = (s3, wa, outs)"
          by (cases "process_winners (emit (Log INFO) s2) env st 0 ws [] []") auto
        from assms fm cr thr False Inr pw have
          "el = el' \<and> winners r = Some ws"
          by (auto simp add: resolve_round_def Let_def skipped_def el'_def
              s2_def [symmetric] split: option.splits if_splits dest!: purge_report)
        with Inr False fm cr show ?thesis
          by (auto simp add: el'_def)
      qed
    qed
  qed
qed

lemma on_reaction_add_guild_roles [simp]:
  "guild_roles (on_reaction_add s mid u now) = guild_roles s"
  by (simp add: on_reaction_add_def split: option.splits)

lemma stop_tasks_guild_roles [simp]: "guild_roles (stop_tasks s a) = guild_roles s"
  by (simp add: stop_tasks_def Let_def split: option.splits bool.splits)

lemma apply_event_guild_roles [simp]: "guild_roles (apply_event a s ev) = guild_roles s"
  by (simp add: apply_event_def split: event.splits)

lemma events_guild_roles [simp]:
  "guild_roles (foldl (apply_event a) s evs) = guild_roles s"
  by (induction evs arbitrary: s) simp_all

lemma ping_guild_roles [simp]: "guild_roles (ping s env) = guild_roles s"
  by (simp add: ping_def split: option.splits)

lemma task_holder_role_cong:
  "guild_roles s1 = guild_roles s2 \<Longrightarrow> task_holder_role s1 env = task_holder_role s2 env"
  by (simp add: task_holder_role_def)

lemma eligible_reactors_free:
  "m \<in> set (eligible_reactors tr reactors) \<Longrightarrow> \<not> holds_role tr m"
  by (simp add: eligible_reactors_def)

lemma resolve_round_winners_eligible:
  assumes "resolve_round s env st ttr mid = (s', r)" "winners r = Some ws"
  shows "\<exists>el. eligible r = Some el"
  using assms
  by (auto simp add: resolve_round_def Let_def skipped_def
      split: sum.splits option.splits if_splits prod.splits dest!: purge_report)

lemma round_body_cases:
  assumes "round_body s env = (s', r)"
  shows "(\<exists>e. r = skipped e \<and> e \<notin> {Assigned, NoneAssigned, Unclaimed}) \<or>
         (\<exists>e mid. r = (skipped e)\<lparr>message_id := Some mid\<rparr> \<and>
            e \<notin> {Assigned, NoneAssigned, Unclaimed}) \<or>
         (\<exists>s4 mid. guild_roles s4 = guild_roles s \<and>
            0 < min (winners_per_task s) (total_tasks s - current_task s + 1) \<and>
            resolve_round s4 env (current_task s)
              (min (winners_per_task s) (total_tasks s - current_task s + 1)) mid = (s', r))"
proof (cases "min (winners_per_task s) (total_tasks s - current_task s + 1) \<le> 0")
  case True
  with assms show ?thesis by (auto simp add: round_body_def Let_def)
next
  case False
  note pos = this
  show ?thesis
  proof (cases "announce_send env")
    case (Inl e)
    with assms pos show ?thesis by (auto simp add: round_body_def Let_def)
  next
    case (Inr mid)
    note an = this
    show ?thesis
    proof (cases "add_reaction env")
      case (Some e)
      with assms pos an show ?thesis by (auto simp add: round_body_def Let_def)
    next
      case None
      from assms pos an None have
        "r = (skipped StoppedInWindow)\<lparr>message_id := Some mid\<rparr> \<or>
         (\<exists>s4. guild_roles s4 = guild_roles s \<and>
            resolve_round s4 env (current_task s)
              (min (winners_per_task s) (total_tasks s - current_task s + 1)) mid = (s', r))"
        unfolding round_body_def Let_def
        by (simp split: if_splits) (rule disjI2, rule exI, rule conjI [rotated], assumption, simp)
      with pos show ?thesis by auto
    qed
  qed
qed

lemma round_body_report:
  assumes "round_body s env = (s', r)"
  shows "(\<forall>ws. winners r = Some ws \<longrightarrow>
            (\<exists>el. eligible r = Some el \<and>
               int (length ws) =
                 min (min (winners_per_task s) (total_tasks s - current_task s + 1))
                   (int (length el)) \<and>
               (\<forall>w\<in>set ws. \<not> holds_role (task_holder_role s env) w))) \<and>
         (eligible r = Some [] \<longrightarrow> winners r = None) \<and>
         (\<forall>el. eligible r = Some el \<and> el \<noteq> [] \<and> winners r = None \<longrightarrow>
            ending r = Raised TypeError)"
proof -
  from round_body_cases [OF assms] consider
    (skip) "eligible r = None" "winners r = None"
    | (res) s4 mid where "guild_roles s4 = guild_roles s"
        "0 < min (winners_per_task s) (total_tasks s - current_task s + 1)"
        "resolve_round s4 env (current_task s)
              (min (winners_per_task s) (total_tasks s - current_task s + 1)) mid = (s', r)"
    by (auto simp add: skipped_def)
  then show ?thesis
  proof cases
    case skip
    then show ?thesis by simp
  next
    case res
    note rr = res(3)
    have gr: "task_holder_role s4 env = task_holder_role s env"
      by (rule task_holder_role_cong) (rule res(1))
    have a: "\<exists>el. eligible r = Some el \<and>
           int (length ws) =
             min (min (winners_per_task s) (total_tasks s - current_task s + 1))
               (int (length el)) \<and>
           (\<forall>w\<in>set ws. \<not> holds_role (task_holder_role s env) w)"
      if w: "winners r = Some ws" for ws
    proof -
      from resolve_round_winners_eligible [OF rr w] obtain el where el: "eligible r = Some el"
        by blast
      note rep = resolve_round_report [OF rr el]
      from rep w obtain sx where
        "select_winners sx mid el (min (winners_per_task s) (total_tasks s - current_task s + 1)) = Inr ws"
        by blast
      from select_winners_shape [OF this] res(2)
      have sh: "int (length ws) =
          min (min (winners_per_task s) (total_tasks s - current_task s + 1)) (int (length el))"
        "set ws \<subseteq> set el" by simp_all
      from rep gr have "\<forall>m\<in>set el. \<not> holds_role (task_holder_role s env) m"
        by (auto dest: eligible_reactors_free)
      with sh el show ?thesis by blast
    qed
    have b: "eligible r = Some [] \<longrightarrow> winners r = None"
      using resolve_round_report [OF rr, of "[]"] by blast
    have c: "\<forall>el. eligible r = Some el \<and> el \<noteq> [] \<and> winners r = None \<longrightarrow>
        ending r = Raised TypeError"
      using resolve_round_report [OF rr] by blast
    from a b c show ?thesis by blast
  qed
qed

lemma tick_report:
  "snd (task_allocation_loop_impl s env) = skipped StopRequested \<or>
   snd (task_allocation_loop_impl s env) = skipped Paused \<or>
   snd (task_allocation_loop_impl s env) = skipped NotConfigured \<or>
   snd (task_allocation_loop_impl s env) = skipped AllTasksDone \<or>
   snd (task_allocation_loop_impl s env) = snd (round_body (emit (Log INFO) s) env)"
  by (auto simp add: task_allocation_loop_impl_def Let_def split: prod.splits ending.splits)

lemma tick_report_facts:
  "(\<forall>ws. winners (snd (task_allocation_loop_impl s env)) = Some ws \<longrightarrow>
      (\<exists>el. eligible (snd (task_allocation_loop_impl s env)) = Some el \<and>
         int (length ws) =
           min (min (winners_per_task s) (total_tasks s - current_task s + 1))
             (int (length el)) \<and>
         (\<forall>w\<in>set ws. \<not> holds_role (task_holder_role s env) w))) \<and>
   (eligible (snd (task_allocation_loop_impl s env)) = Some [] \<longrightarrow>
      winners (snd (task_allocation_loop_impl s env)) = None) \<and>
   (\<forall>el. eligible (snd (task_allocation_loop_impl s env)) = Some el \<and> el \<noteq> [] \<and>
      winners (snd (task_allocation_loop_impl s env)) = None \<longrightarrow>
      ending (snd (task_allocation_loop_impl s env)) = Raised TypeError)"
proof -
  from tick_report [of s env] consider
    (skip) e where "snd (task_allocation_loop_impl s env) = skipped e"
    | (body) "snd (task_allocation_loop_impl s env) = snd (round_body (emit (Log INFO) s) env)"
    by blast
  then show ?thesis
  proof cases
    case skip
    then show ?thesis by (simp add: skipped_def)
  next
    case body
    obtain s' r where rb: "round_body (emit (Log INFO) s) env = (s', r)"
      by (cases "round_body (emit (Log INFO) s) env")
    have "task_holder_role (emit (Log INFO) s) env = task_holder_role s env"
      by (rule task_holder_role_cong) simp
    with round_body_report [OF rb] show ?thesis
      by (simp add: body rb)
  qed
qed

text \<open>
  The count of the winners where the selection returns: in every tick that selects winners, the
  eligible list \<open>el\<close> was computed and the number of winners is
  \<open>min (winners_per_task, remaining_tasks, length el)\<close> with
  \<open>remaining_tasks = total_tasks - current_task + 1\<close> read at the start of the tick. A round
  with an empty eligible list selects nobody. The only rounds that computed a non-empty eligible
  list and selected nobody are those in which the sort itself raised \<open>TypeError\<close>.
\<close>

theorem winners_count:
  "(\<forall>ws. winners (snd (task_allocation_loop_impl s env)) = Some ws \<longrightarrow>
      (\<exists>el. eligible (snd (task_allocation_loop_impl s env)) = Some el \<and>
         int (length ws) =
           min (min (winners_per_task s) (total_tasks s - current_task s + 1))
             (int (length el)))) \<and>
   (eligible (snd (task_allocation_loop_impl s env)) = Some [] \<longrightarrow>
      winners (snd (task_allocation_loop_impl s env)) = None) \<and>
   (\<forall>el. eligible (snd (task_allocation_loop_impl s env)) = Some el \<and> el \<noteq> [] \<and>
      winners (snd (task_allocation_loop_impl s env)) = None \<longrightarrow>
      ending (snd (task_allocation_loop_impl s env)) = Raised TypeError)"
  using tick_report_facts [of s env] by blast

theorem winners_count_witness:
  "winners (snd (task_allocation_loop_impl batch_bot round_ok)) = Some [alice, bob] \<and>
   eligible (snd (task_allocation_loop_impl batch_bot round_ok)) = Some [bob, alice] \<and>
   winners_per_task batch_bot = 2 \<and> total_tasks batch_bot - current_task batch_bot + 1 = 3 \<and>
   (\<exists>el. eligible (snd (task_allocation_loop_impl batch_bot round_ok)) = Some el \<and>
      int (length [alice, bob]) =
        min (min (winners_per_task batch_bot)
               (total_tasks batch_bot - current_task batch_bot + 1))
          (int (length el)))"
proof -
  have w: "winners (snd (task_allocation_loop_impl batch_bot round_ok)) = Some [alice, bob]"
    by code_simp
  have e: "eligible (snd (task_allocation_loop_impl batch_bot round_ok)) = Some [bob, alice]"
    by code_simp
  have p: "winners_per_task batch_bot = 2"
    "total_tasks batch_bot - current_task batch_bot + 1 = 3"
    by code_simp+
  note th = winners_count [of batch_bot round_ok, THEN conjunct1, THEN spec, THEN mp, OF w]
  show ?thesis
    by (intro conjI) (rule w e p th)+
qed

text \<open>
  C2 on a failing input: in round 900 alice's reaction is recorded and bob's is not, and the
  fetched message lists both. The eligible list has two members and the round offers two tasks,
  so \<open>min (winners_per_task, remaining_tasks, length el)\<close> is 2; the sort raises
  \<open>TypeError\<close> on the mixed keys and the round ends in the outer handler with no winner
  selected, not two.
\<close>

theorem no_winners_despite_eligible:
  "eligible (snd (task_allocation_loop_impl batch_bot round_missed)) = Some [bob, alice] \<and>
   min (min (winners_per_task batch_bot) (total_tasks batch_bot - current_task batch_bot + 1))
     (int (length [bob, alice])) = 2 \<and>
   winners (snd (task_allocation_loop_impl batch_bot round_missed)) = None \<and>
   outcomes (snd (task_allocation_loop_impl batch_bot round_missed)) = [] \<and>
   current_task (fst (task_allocation_loop_impl batch_bot round_missed)) = 1"
  by code_simp

text \<open>
  C4. No selected winner holds the cooldown role: whenever a tick selects the winners \<open>ws\<close>,
  no member of \<open>ws\<close> lists the guild's role named \<open>TASK_ROLE_NAME\<close> among its roles, whatever
  the reaction timestamps are.
\<close>

theorem cooldown_holder_never_wins:
  assumes "winners (snd (task_allocation_loop_impl s env)) = Some ws" and "w \<in> set ws"
  shows "\<not> holds_role (task_holder_role s env) w"
  using tick_report_facts [of s env] assms by blast

theorem cooldown_holder_never_wins_witness:
  "winners (snd (task_allocation_loop_impl batch_bot round_cooldown)) = Some [alice, bob] \<and>
   holds_role (task_holder_role batch_bot round_cooldown) carol \<and>
   \<not> holds_role (task_holder_role batch_bot round_cooldown) alice \<and>
   \<not> holds_role (task_holder_role batch_bot round_cooldown) bob"
proof -
  have w: "winners (snd (task_allocation_loop_impl batch_bot round_cooldown)) = Some [alice, bob]"
    by code_simp
  have c: "holds_role (task_holder_role batch_bot round_cooldown) carol"
    by code_simp
  have a: "alice \<in> set [alice, bob]" and b: "bob \<in> set [alice, bob]" by simp_all
  note th = cooldown_holder_never_wins [OF w]
  show ?thesis
    by (intro conjI) (rule w c th [OF a] th [OF b])+
qed

text \<open>
  When every eligible reactor has a recorded timestamp the selection returns, the winners are in
  non-decreasing order of timestamp, and no eligible reactor left out reacted earlier than a
  winner: the first winner has the earliest recorded reaction.
\<close>

lemma insort_py_aware:
  assumes "fst x \<noteq> NaiveMax" "\<forall>p\<in>set ys. fst p \<noteq> NaiveMax"
    "sorted (map (\<lambda>p. time_of (fst p)) ys)"
  shows "\<exists>zs. insort_py x ys = Inr zs \<and> sorted (map (\<lambda>p. time_of (fst p)) zs)"
  using assms
proof (induction ys)
  case Nil
  then show ?case by simp
next
  case (Cons y ys)
  from Cons.prems obtain a b where k: "fst x = Aware a" "fst y = Aware b"
    by (cases "fst x"; cases "fst y") auto
  show ?case
  proof (cases "b < a")
    case False
    with k Cons.prems show ?thesis by (auto simp add: time_of_def)
  next
    case True
    from Cons.prems have "\<exists>zs. insort_py x ys = Inr zs \<and> sorted (map (\<lambda>p. time_of (fst p)) zs)"
      by (intro Cons.IH) auto
    then obtain zs where z: "insort_py x ys = Inr zs" "sorted (map (\<lambda>p. time_of (fst p)) zs)"
      by blast
    from insort_py_shape [OF z(1)] have s: "set zs = insert x (set ys)" by simp
    have "\<forall>p\<in>set zs. time_of (fst y) \<le> time_of (fst p)"
      using s Cons.prems(3) True k by (auto simp add: time_of_def)
    with z k True show ?thesis by auto
  qed
qed

lemma sort_py_aware:
  assumes "\<forall>p\<in>set xs. fst p \<noteq> NaiveMax"
  shows "\<exists>ys. sort_py xs = Inr ys \<and> sorted (map (\<lambda>p. time_of (fst p)) ys)"
  using assms
proof (induction xs)
  case Nil
  then show ?case by simp
next
  case (Cons x xs)
  then obtain ys where y: "sort_py xs = Inr ys" "sorted (map (\<lambda>p. time_of (fst p)) ys)"
    by auto
  from sort_py_shape [OF y(1)] Cons.prems have "\<forall>p\<in>set ys. fst p \<noteq> NaiveMax" by simp
  from insort_py_aware [OF _ this y(2), of x] Cons.prems y(1) show ?case by simp
qed

lemma sort_py_keys:
  "sort_py (map (\<lambda>x. (key x, x)) xs) = Inr ys \<Longrightarrow> \<forall>p\<in>set ys. fst p = key (snd p)"
  by (auto dest!: sort_py_shape)

lemma select_winners_in_order:
  assumes "\<forall>m\<in>set el. sort_key s mid m \<noteq> NaiveMax" "0 \<le> n"
  shows "\<exists>ws. select_winners s mid el n = Inr ws \<and>
           sorted (map (\<lambda>m. time_of (sort_key s mid m)) ws) \<and>
           (\<forall>w\<in>set ws. \<forall>m\<in>set el. m \<notin> set ws \<longrightarrow>
              time_of (sort_key s mid w) \<le> time_of (sort_key s mid m))"
proof -
  let ?k = "sort_key s mid"
  from assms(1) have "\<forall>p\<in>set (map (\<lambda>x. (?k x, x)) el). fst p \<noteq> NaiveMax" by simp
  from sort_py_aware [OF this] obtain ys where
    y: "sort_py (map (\<lambda>x. (?k x, x)) el) = Inr ys" "sorted (map (\<lambda>p. time_of (fst p)) ys)"
    by blast
  from sort_py_keys [OF y(1)] have "map (\<lambda>p. time_of (fst p)) ys = map (\<lambda>m. time_of (?k m)) (map snd ys)"
    by simp
  with y(2) have so: "sorted (map (\<lambda>m. time_of (?k m)) (map snd ys))" by simp
  from sort_py_shape [OF y(1)] have se: "set (map snd ys) = set el" by (simp add: image_image)
  define zs where "zs = map snd ys"
  have sel: "select_winners s mid el n = Inr (take (nat n) zs)"
    using y(1) assms(2) by (simp add: select_winners_def sorted_py_def slice_to_def zs_def)
  have "sorted (map (\<lambda>m. time_of (?k m)) (take (nat n) zs @ drop (nat n) zs))"
    using so by (simp add: zs_def)
  then have a: "sorted (map (\<lambda>m. time_of (?k m)) (take (nat n) zs))"
    and b: "\<forall>w\<in>set (take (nat n) zs). \<forall>m\<in>set (drop (nat n) zs).
          time_of (?k w) \<le> time_of (?k m)"
    unfolding map_append sorted_append by auto
  have "m \<in> set (drop (nat n) zs)" if "m \<in> set el" "m \<notin> set (take (nat n) zs)" for m
  proof -
    from that(1) se have "m \<in> set (take (nat n) zs @ drop (nat n) zs)" by (simp add: zs_def)
    with that(2) show ?thesis by (simp del: append_take_drop_id)
  qed
  with a b sel show ?thesis by blast
qed

text \<open>
  A stored timestamp next to a missing one: the sort compares an aware datetime with the naive
  \<open>datetime.max\<close> and raises. With alice's reaction recorded and bob's not, the selection
  raises \<open>TypeError\<close>, and the tick that meets this ends in the outer handler with no
  winner. This is the failing input of C3: the claim has bob sorted after alice.
\<close>

theorem missing_timestamp_raises:
  "sort_key waiting_bot 900 alice = Aware 100 \<and> sort_key waiting_bot 900 bob = NaiveMax \<and>
   select_winners waiting_bot 900 [bob, alice] 2 = Inl TypeError \<and>
   eligible (snd (task_allocation_loop_impl batch_bot round_missed)) = Some [bob, alice] \<and>
   winners (snd (task_allocation_loop_impl batch_bot round_missed)) = None \<and>
   ending (snd (task_allocation_loop_impl batch_bot round_missed)) = Raised TypeError"
  by code_simp

subsection \<open>The emoji of a reaction\<close>

lemma get_member_safely_fetch [simp]:
  "get_member_safely (env\<lparr>fetch_message := x\<rparr>) uid = get_member_safely env uid"
  by (simp add: get_member_safely_def split: option.splits sum.splits)

lemma collect_users_fetch [simp]:
  "collect_users (env\<lparr>fetch_message := x\<rparr>) us acc = collect_users env us acc"
  by (induction us arbitrary: acc) (simp_all split: sum.splits option.splits)

lemma collect_reactors_fetch [simp]:
  "collect_reactors (env\<lparr>fetch_message := x\<rparr>) rs acc = collect_reactors env rs acc"
  by (induction rs arbitrary: acc) (simp_all split: sum.splits)

lemma collect_reactors_users:
  "map users rs' = map users rs \<Longrightarrow> collect_reactors env rs' acc = collect_reactors env rs acc"
proof (induction rs arbitrary: rs' acc)
  case Nil
  then show ?case by simp
next
  case (Cons r rs)
  from Cons.prems obtain r' rs'' where
    eq: "rs' = r' # rs''" "users r' = users r" "map users rs'' = map users rs"
    by (cases rs') simp_all
  have ih: "collect_reactors env rs'' acc' = collect_reactors env rs acc'" for acc'
    by (rule Cons.IH) (rule eq(3))
  show ?case
    unfolding eq(1) collect_reactors.simps eq(2) ih ..
qed

lemma process_winners_fetch [simp]:
  "process_winners s (env\<lparr>fetch_message := x\<rparr>) st i ws acc outs =
   process_winners s env st i ws acc outs"
  by (induction ws arbitrary: s i acc outs) (simp_all split: prod.splits sum.splits bool.splits)

lemma task_holder_role_fetch [simp]:
  "task_holder_role s (env\<lparr>fetch_message := x\<rparr>) = task_holder_role s env"
  by (simp add: task_holder_role_def)

lemma ping_fetch [simp]: "ping s (env\<lparr>fetch_message := x\<rparr>) = ping s env"
  by (simp add: ping_def split: option.splits)

lemma resolve_round_users:
  assumes "map users rs' = map users rs"
  shows "resolve_round s (env\<lparr>fetch_message := Inr rs'\<rparr>) st ttr mid =
         resolve_round s (env\<lparr>fetch_message := Inr rs\<rparr>) st ttr mid"
  by (simp add: resolve_round_def collect_reactors_users [OF assms]
      cong: sum.case_cong option.case_cong if_cong prod.case_cong)

lemma round_body_users:
  assumes "map users rs' = map users rs"
  shows "round_body s (env\<lparr>fetch_message := Inr rs'\<rparr>) =
         round_body s (env\<lparr>fetch_message := Inr rs\<rparr>)"
  by (simp add: round_body_def resolve_round_users [OF assms]
      cong: sum.case_cong option.case_cong if_cong prod.case_cong)

text \<open>
  C5, as the code has it. The resolution never reads the emoji of a reaction: two fetched
  messages whose reactions list the same users, under whatever emojis, give the same tick, state
  and report. A candidate who reacted with another emoji only is resolved exactly as if the
  reaction had been the check mark.
\<close>

theorem emoji_not_consulted:
  assumes "map users rs' = map users rs"
  shows "task_allocation_loop_impl s (env\<lparr>fetch_message := Inr rs'\<rparr>) =
         task_allocation_loop_impl s (env\<lparr>fetch_message := Inr rs\<rparr>)"
  by (simp add: task_allocation_loop_impl_def round_body_users [OF assms]
      cong: sum.case_cong option.case_cong if_cong prod.case_cong)

theorem emoji_not_consulted_witness:
  "map users [\<lparr>emoji = ''thumbsup'', users = Inr [human 7]\<rparr>] =
     map users [\<lparr>emoji = ''white_check_mark'', users = Inr [human 7]\<rparr>] \<and>
   task_allocation_loop_impl batch_bot
     (round_ok\<lparr>fetch_message := Inr [\<lparr>emoji = ''thumbsup'', users = Inr [human 7]\<rparr>]\<rparr>) =
   task_allocation_loop_impl batch_bot
     (round_ok\<lparr>fetch_message := Inr [\<lparr>emoji = ''white_check_mark'', users = Inr [human 7]\<rparr>]\<rparr>)"
proof -
  have u: "map users [\<lparr>emoji = ''thumbsup'', users = Inr [human 7]\<rparr>] =
     map users [\<lparr>emoji = ''white_check_mark'', users = Inr [human 7]\<rparr>]"
    by simp
  from emoji_not_consulted [OF u, of batch_bot round_ok] u show ?thesis by (intro conjI)
qed

text \<open>
  C5 as stated fails: alice reacts with a thumbs-up only, nobody uses the check mark, and alice is
  the eligible list and the winner.
\<close>

theorem other_emoji_counterexample:
  "eligible (snd (task_allocation_loop_impl batch_bot round_thumbs)) = Some [alice] \<and>
   winners (snd (task_allocation_loop_impl batch_bot round_thumbs)) = Some [alice]"
  by code_simp

subsection \<open>Purging the reaction records\<close>

text \<open>
  The rounds that end on one of the two normal paths (winners settled, or unclaimed) do purge
  their records.
\<close>

lemma purge_purges: "purge s mid rep = (s', r) \<Longrightarrow> reaction_timestamps s' mid = None"
  by (auto simp add: purge_def split: option.splits)

lemma purge_message_id: "purge s mid rep = (s', r) \<Longrightarrow> message_id r = message_id rep"
  by (auto simp add: purge_def split: option.splits)

lemma resolve_round_purges:
  assumes "resolve_round s env st ttr mid = (s', r)"
  shows "message_id r = Some mid \<and>
         ((\<exists>e. ending r = Raised e) \<or> reaction_timestamps s' mid = None)"
  using assms unfolding resolve_round_def Let_def skipped_def
  by (auto split: sum.splits if_splits prod.splits option.splits
      dest: purge_purges purge_message_id)

lemma round_body_purges:
  assumes "round_body s env = (s', r)" "ending r \<in> {Assigned, NoneAssigned, Unclaimed}"
  shows "\<exists>mid. message_id r = Some mid \<and> reaction_timestamps s' mid = None"
proof -
  from round_body_cases [OF assms(1)] assms(2) obtain s4 mid where
    "resolve_round s4 env (current_task s)
       (min (winners_per_task s) (total_tasks s - current_task s + 1)) mid = (s', r)"
    by (auto simp add: skipped_def)
  from resolve_round_purges [OF this] assms(2) show ?thesis by auto
qed

lemma normal_round_purges:
  assumes "ending (snd (task_allocation_loop_impl s env)) \<in> {Assigned, NoneAssigned, Unclaimed}"
  shows "\<exists>mid. message_id (snd (task_allocation_loop_impl s env)) = Some mid \<and>
           reaction_timestamps (fst (task_allocation_loop_impl s env)) mid = None"
proof -
  obtain s1 rep where rb: "round_body (emit (Log INFO) s) env = (s1, rep)"
    by (cases "round_body (emit (Log INFO) s) env")
  from assms rb have "task_allocation_loop_impl s env = (s1, rep)"
    by (auto simp add: task_allocation_loop_impl_def Let_def skipped_def
        split: if_splits ending.splits)
  with assms round_body_purges [OF rb] show ?thesis by simp
qed

text \<open>
  C9 on a failing input: the announcement 900 is posted and its reaction map created, the fetch
  of the message after the window raises, the outer handler logs it, and the tick returns with
  the records of round 900 still in the map. The \<open>del\<close> statement is the last statement of
  the \<open>try\<close> block and is not reached.
\<close>

theorem failed_round_keeps_reactions:
  "message_id (snd (task_allocation_loop_impl batch_bot round_fetch_fails)) = Some 900 \<and>
   ending (snd (task_allocation_loop_impl batch_bot round_fetch_fails)) = Raised HTTPException \<and>
   reaction_timestamps (fst (task_allocation_loop_impl batch_bot round_fetch_fails)) 900 \<noteq> None"
  by code_simp

subsection \<open>A winner whose settlement raises after the grant\<close>

text \<open>
  Once the role is granted, the settlement of a winner ends with the role held and its removal
  scheduled, whether the rest of the settlement returns or raises: nothing is rolled back.
\<close>

lemma dm_winner_grants [simp]:
  "role_holders (fst (dm_winner s env m n)) = role_holders s"
  "role_removal_tasks (fst (dm_winner s env m n)) = role_removal_tasks s"
  by (simp_all add: dm_winner_def Let_def split: option.splits)

lemma write_to_sheet_grants [simp]:
  "role_holders (write_to_sheet s a n nm) = role_holders s"
  "role_removal_tasks (write_to_sheet s a n nm) = role_removal_tasks s"
proof -
  from write_to_sheet_frame [of s a n nm] obtain new where
    "write_to_sheet s a n nm = s\<lparr>trace := trace s @ new\<rparr>" by blast
  then show "role_holders (write_to_sheet s a n nm) = role_holders s"
    and "role_removal_tasks (write_to_sheet s a n nm) = role_removal_tasks s"
    by simp_all
qed

lemma settle_winner_keeps_grant:
  assumes "find (\<lambda>r. role_name r = TASK_ROLE_NAME) (guild_roles s) = Some r"
    "add_roles env = None"
  shows "(member_id w, role_id r) \<in> role_holders (fst (settle_winner s env True w n)) \<and>
         (member_id w, role_id r) \<in> set (role_removal_tasks (fst (settle_winner s env True w n)))"
proof -
  define s3 where "s3 = (emit (AddRole (member_id w) (role_id r)) (emit (Log INFO) (emit (Log INFO) s)))
      \<lparr>role_holders := insert (member_id w, role_id r) (role_holders s),
        role_removal_tasks := role_removal_tasks s @ [(member_id w, role_id r)]\<rparr>"
  obtain s4 res where dm: "dm_winner s3 env w n = (s4, res)"
    by (cases "dm_winner s3 env w n")
  note g1 = dm_winner_grants [of s3 env w n, unfolded dm fst_conv]
  have g: "role_holders s4 = insert (member_id w, role_id r) (role_holders s)"
       "role_removal_tasks s4 = role_removal_tasks s @ [(member_id w, role_id r)]"
    by (simp_all add: g1 s3_def)
  have "fst (settle_winner s env True w n) =
      (case res of Inl e \<Rightarrow> s4 | Inr b \<Rightarrow> write_to_sheet s4 (sheet_attempts env) n (member_name w))"
    using assms dm
    by (simp add: settle_winner_def get_or_create_role_def Let_def s3_def [symmetric]
        split: sum.splits)
  with g show ?thesis by (simp split: sum.splits)
qed

text \<open>
  C10 on a failing input: alice (task 1) and bob (task 2) are selected; alice's role is granted
  and its removal scheduled, then her notification raises; bob is settled. Alice keeps the role
  and the removal task, only bob is counted, and \<open>current_task\<close> becomes 2: the next round
  starts at task 2, so task 1, alice's number, is not offered again.
\<close>

theorem failed_winner_number_skipped:
  "winners (snd (task_allocation_loop_impl batch_bot round_dm_closed)) = Some [alice, bob] \<and>
   outcomes (snd (task_allocation_loop_impl batch_bot round_dm_closed)) =
     [Inl Forbidden, Inr True] \<and>
   (7, 50) \<in> role_holders (fst (task_allocation_loop_impl batch_bot round_dm_closed)) \<and>
   role_removal_tasks (fst (task_allocation_loop_impl batch_bot round_dm_closed)) =
     [(7, 50), (8, 50)] \<and>
   current_task (fst (task_allocation_loop_impl batch_bot round_dm_closed)) = 2"
  by code_simp

end
